theory Spec2Isabelle
  imports Main "HOL-Library.List_Lexorder" "HOL-Library.Sublist" "HOL-Library.Multiset"
    "HOL-Library.AList"
begin

section \<open>Python values and built-ins used by the ID-file codec\<close>

text \<open>
  A Python \<open>str\<close> is a sequence of Unicode code points. Isabelle's \<open>char\<close> has only
  256 values, so a string is modelled as a list of code points (\<open>nat\<close>); \<open>u ''...''\<close>
  writes an ASCII literal. Lists of code points are ordered lexicographically
  (\<open>List_Lexorder\<close>), which is how Python compares strings.
\<close>

type_synonym ustr = "nat list"

definition u :: "string \<Rightarrow> ustr" where
  "u s = map of_char s"

text \<open>The exceptions the codec can raise, as values.\<close>

datatype error = TypeError | ValueError | IndexError | KeyError | AttributeError
  | FileNotFoundError | FileExistsError | NotADirectoryError

fun and_then :: "'e + 'a \<Rightarrow> ('a \<Rightarrow> 'e + 'b) \<Rightarrow> 'e + 'b" where
  "and_then (Inl e) f = Inl e"
| "and_then (Inr x) f = f x"

text \<open>A list comprehension whose body can raise: the first exception ends it.\<close>

fun map_err :: "('a \<Rightarrow> 'e + 'b) \<Rightarrow> 'a list \<Rightarrow> 'e + 'b list" where
  "map_err f [] = Inr []"
| "map_err f (x # xs) =
     (case f x of Inl e \<Rightarrow> Inl e
      | Inr y \<Rightarrow> (case map_err f xs of Inl e \<Rightarrow> Inl e | Inr ys \<Rightarrow> Inr (y # ys)))"

text \<open>
  The values a record can hold. The code is duck-typed: it tests truthiness, tries
  \<open>data + ""\<close>, and asks \<open>isinstance(data, list)\<close> and \<open>isinstance(data, dict)\<close>. A
  \<open>dict\<close> is an association list in insertion order with string keys; a well-formed
  dict has distinct keys.
\<close>

datatype pyval = PNone | PStr ustr | PList "pyval list" | PDict "(ustr \<times> pyval) list"

fun truthy :: "pyval \<Rightarrow> bool" where
  "truthy PNone = False"
| "truthy (PStr s) = (s \<noteq> [])"
| "truthy (PList xs) = (xs \<noteq> [])"
| "truthy (PDict d) = (d \<noteq> [])"

subsection \<open>Strings\<close>

text \<open>\<open>str.isspace\<close> on one code point: the set \<open>str.split()\<close> and \<open>str.strip()\<close> use.\<close>

definition isspace :: "nat \<Rightarrow> bool" where
  "isspace c \<longleftrightarrow>
     (0x09 \<le> c \<and> c \<le> 0x0D) \<or> (0x1C \<le> c \<and> c \<le> 0x20) \<or> c = 0x85 \<or> c = 0xA0
     \<or> c = 0x1680 \<or> (0x2000 \<le> c \<and> c \<le> 0x200A) \<or> c = 0x2028 \<or> c = 0x2029
     \<or> c = 0x202F \<or> c = 0x205F \<or> c = 0x3000"

text \<open>\<open>s.split()\<close>: the maximal runs of non-whitespace.\<close>

function split_ws :: "ustr \<Rightarrow> ustr list" where
  "split_ws s =
     (let t = dropWhile isspace s
      in if t = [] then []
         else takeWhile (\<lambda>c. \<not> isspace c) t # split_ws (dropWhile (\<lambda>c. \<not> isspace c) t))"
  by pat_completeness auto
termination
proof (relation "measure length")
  show "wf (measure length)" by simp
next
  fix s t :: ustr
  assume t: "t = dropWhile isspace s" and ne: "t \<noteq> []"
  have "\<not> isspace (hd t)"
    using t ne hd_dropWhile by metis
  then have "dropWhile (\<lambda>c. \<not> isspace c) t = dropWhile (\<lambda>c. \<not> isspace c) (tl t)"
    using ne by (cases t) auto
  then have "length (dropWhile (\<lambda>c. \<not> isspace c) t) \<le> length (tl t)"
    using length_dropWhile_le [of "\<lambda>c. \<not> isspace c" "tl t"] by simp
  also have "\<dots> < length t" using ne by (cases t) auto
  also have "\<dots> \<le> length s" using t by (simp add: length_dropWhile_le)
  finally show "(dropWhile (\<lambda>c. \<not> isspace c) t, s) \<in> measure length" by simp
qed

declare split_ws.simps [simp del]

text \<open>\<open>sep.join(xs)\<close>.\<close>

fun join :: "'a list \<Rightarrow> 'a list list \<Rightarrow> 'a list" where
  "join sep [] = []"
| "join sep [x] = x"
| "join sep (x # y # ys) = x @ sep @ join sep (y # ys)"

text \<open>\<open>s.strip()\<close>.\<close>

definition strip :: "ustr \<Rightarrow> ustr" where
  "strip s = rev (dropWhile isspace (rev (dropWhile isspace s)))"

text \<open>
  \<open>s.replace(old, new)\<close> and \<open>s.split(sep)\<close>, scanning left to right for non-overlapping
  occurrences. Every call in the codec passes a non-empty literal for \<open>old\<close> and \<open>sep\<close>;
  with an empty one the functions below leave the string alone (Python would insert
  \<open>new\<close> everywhere, respectively raise \<open>ValueError\<close>).
\<close>

fun replace :: "'a list \<Rightarrow> 'a list \<Rightarrow> 'a list \<Rightarrow> 'a list" where
  "replace old new [] = []"
| "replace old new (x # xs) =
     (if old \<noteq> [] \<and> prefix old (x # xs)
      then new @ replace old new (drop (length old - 1) xs)
      else x # replace old new xs)"

fun split_on :: "'a list \<Rightarrow> 'a list \<Rightarrow> 'a list list" where
  "split_on sep [] = [[]]"
| "split_on sep (x # xs) =
     (if sep \<noteq> [] \<and> prefix sep (x # xs)
      then [] # split_on sep (drop (length sep - 1) xs)
      else (case split_on sep xs of [] \<Rightarrow> [[x]] | p # ps \<Rightarrow> (x # p) # ps))"

subsection \<open>Integers and their decimal text\<close>

text \<open>\<open>str(n)\<close> for an integer.\<close>

fun digits :: "nat \<Rightarrow> ustr" where
  "digits n = (if n < 10 then [48 + n] else digits (n div 10) @ [48 + n mod 10])"

declare digits.simps [simp del]

definition str_int :: "int \<Rightarrow> ustr" where
  "str_int i = (if i < 0 then 45 # digits (nat (- i)) else digits (nat i))"

text \<open>
  \<open>int(s)\<close> for a string: surrounding whitespace is ignored, one sign is allowed, the
  digits may be separated by single underscores, and every Unicode decimal digit counts
  (the zeros of the digit blocks of Unicode 14 are listed). \<open>None\<close> is \<open>ValueError\<close>.
  The whitespace \<open>int\<close> ignores is that of \<open>isspace\<close> without the separators
  \<open>0x1C\<close> to \<open>0x1F\<close>.
\<close>

definition decimal_zeros :: "nat list" where
  "decimal_zeros =
    [0x30, 0x660, 0x6f0, 0x7c0, 0x966, 0x9e6, 0xa66, 0xae6, 0xb66, 0xbe6, 0xc66, 0xce6,
     0xd66, 0xde6, 0xe50, 0xed0, 0xf20, 0x1040, 0x1090, 0x17e0, 0x1810, 0x1946, 0x19d0,
     0x1a80, 0x1a90, 0x1b50, 0x1bb0, 0x1c40, 0x1c50, 0xa620, 0xa8d0, 0xa900, 0xa9d0,
     0xa9f0, 0xaa50, 0xabf0, 0xff10, 0x104a0, 0x10d30, 0x11066, 0x110f0, 0x11136,
     0x111d0, 0x112f0, 0x11450, 0x114d0, 0x11650, 0x116c0, 0x11730, 0x118e0, 0x11950,
     0x11c50, 0x11d50, 0x11da0, 0x16a60, 0x16ac0, 0x16b50, 0x1d7ce, 0x1d7d8, 0x1d7e2,
     0x1d7ec, 0x1d7f6, 0x1e140, 0x1e2f0, 0x1e950, 0x1fbf0]"

definition decimal :: "nat \<Rightarrow> nat option" where
  "decimal c = map_option (\<lambda>z. c - z) (find (\<lambda>z. z \<le> c \<and> c < z + 10) decimal_zeros)"

definition int_space :: "nat \<Rightarrow> bool" where
  "int_space c \<longleftrightarrow> isspace c \<and> \<not> (0x1C \<le> c \<and> c \<le> 0x1F)"

fun int_digits :: "nat \<Rightarrow> ustr \<Rightarrow> nat option" where
  "int_digits acc [] = Some acc"
| "int_digits acc [c] =
     (case decimal c of None \<Rightarrow> None | Some d \<Rightarrow> Some (10 * acc + d))"
| "int_digits acc (c # c' # cs) =
     (case decimal c of
        Some d \<Rightarrow> int_digits (10 * acc + d) (c' # cs)
      | None \<Rightarrow>
          if c = 95 then
            (case decimal c' of None \<Rightarrow> None | Some d \<Rightarrow> int_digits (10 * acc + d) cs)
          else None)"

definition int_of_str :: "ustr \<Rightarrow> int option" where
  "int_of_str s =
     (let t = rev (dropWhile int_space (rev (dropWhile int_space s)));
          neg = (t \<noteq> [] \<and> hd t = 45);
          body = (if t \<noteq> [] \<and> (hd t = 45 \<or> hd t = 43) then tl t else t)
      in case body of
           [] \<Rightarrow> None
         | c # cs \<Rightarrow>
             (case decimal c of
                None \<Rightarrow> None
              | Some d \<Rightarrow>
                  map_option (\<lambda>n. if neg then - int n else int n) (int_digits d cs)))"

text \<open>\<open>s.zfill(width)\<close>: zeros go after a leading sign.\<close>

definition zfill :: "nat \<Rightarrow> ustr \<Rightarrow> ustr" where
  "zfill width s =
     (let pad = replicate (width - length s) 48
      in case s of
           [] \<Rightarrow> pad
         | c # cs \<Rightarrow> if c = 43 \<or> c = 45 then c # pad @ cs else pad @ s)"

section \<open>The serializer (\<open>isisinterface.py\<close>)\<close>

definition PRESERVECIRC :: ustr where
  "PRESERVECIRC = u ''[PRESERVECIRC]''"

text \<open>The two characters backslash and circumflex, the escape written to the file.\<close>

definition ESCAPED_CIRC :: ustr where
  "ESCAPED_CIRC = [92, 94]"

definition remove_break_lines_characters :: "ustr \<Rightarrow> ustr" where
  "remove_break_lines_characters content = join (u '' '') (split_ws content)"

text \<open>
  \<open>format_value\<close>: \<open>content += ""\<close> succeeds for a string, and also for a list, which
  it leaves as it is (\<open>list.__iadd__\<close> takes any iterable): an empty list is then read
  as \<open>""\<close> by \<open>content or ""\<close>, and a non-empty one has no \<open>split\<close>
  (\<open>AttributeError\<close>). Only a dict and \<open>None\<close> raise \<open>TypeError\<close> and reach
  \<open>", ".join(content)\<close>, which joins the keys of the dict and raises \<open>TypeError\<close>
  again for \<open>None\<close>.
\<close>

definition format_text :: "ustr \<Rightarrow> ustr" where
  "format_text content =
     replace (u ''^'') PRESERVECIRC (strip (remove_break_lines_characters content))"

fun format_value :: "pyval \<Rightarrow> error + ustr" where
  "format_value (PStr s) = Inr (format_text s)"
| "format_value (PList xs) = (if xs = [] then Inr (format_text []) else Inl AttributeError)"
| "format_value (PDict d) = Inr (format_text (join (u '', '') (map fst d)))"
| "format_value PNone = Inl TypeError"

text \<open>The class \<open>IDFile\<close>: its only attribute is the optional content formatter.\<close>

record IDFile =
  content_formatter :: "(ustr \<Rightarrow> ustr) option"

definition MAX_DIGITS_QTD :: nat where
  "MAX_DIGITS_QTD = 6"

text \<open>\<open>_format_id\<close>: \<open>index in range(1, 10 ** 6)\<close>, else \<open>IndexError\<close>.\<close>

definition format_id :: "int \<Rightarrow> error + ustr" where
  "format_id index =
     (if 1 \<le> index \<and> index < 10 ^ MAX_DIGITS_QTD
      then Inr (u ''!ID '' @ zfill MAX_DIGITS_QTD (str_int index) @ [10])
      else Inl IndexError)"

text \<open>\<open>_format_subfield\<close>: \<open>subf in "abc...789"\<close> is Python's substring test.\<close>

definition format_subfield :: "ustr \<Rightarrow> pyval \<Rightarrow> error + ustr" where
  "format_subfield subf subf_value =
     (if truthy subf_value \<and> sublist subf (u ''abcdefghijklmnopqrstuvwxyz123456789'')
      then and_then (format_value subf_value) (\<lambda>s. Inr (u ''^'' @ subf @ s))
      else Inr [])"

text \<open>\<open>_format_subfields\<close>: the main value, then the sorted subfield tokens.\<close>

definition format_subfields :: "(ustr \<times> pyval) list \<Rightarrow> error + ustr" where
  "format_subfields subf_and_value_list =
     and_then
       (format_value
          (case map_of subf_and_value_list (u ''_'') of
             None \<Rightarrow> PStr []
           | Some v \<Rightarrow> if truthy v then v else PStr []))
       (\<lambda>first.
          and_then (map_err (\<lambda>(k, v). format_subfield k v) subf_and_value_list)
            (\<lambda>values. Inr (first @ concat (sort values))))"

text \<open>\<open>_tag_content\<close>: the range check comes before the test for an empty value.\<close>

definition tag_content :: "ustr \<Rightarrow> ustr \<Rightarrow> error + ustr" where
  "tag_content tag val =
     (case int_of_str tag of
        None \<Rightarrow> Inl ValueError
      | Some n \<Rightarrow>
          if \<not> (0 < n \<and> n \<le> 999) then Inl ValueError
          else if val = [] then Inr []
          else Inr (u ''!v'' @ zfill 3 tag @ u ''!'' @ val @ [10]))"

text \<open>\<open>_tag_occ\<close>: one occurrence; a string becomes the dict \<open>{"_": data}\<close>.\<close>

definition tag_occ :: "ustr \<Rightarrow> pyval \<Rightarrow> error + ustr" where
  "tag_occ tag data =
     (if \<not> truthy data then Inr []
      else
        and_then
          (case data of
             PStr s \<Rightarrow> Inr [(u ''_'', PStr s)]
           | PDict d \<Rightarrow> Inr d
           | _ \<Rightarrow> Inl TypeError)
          (\<lambda>d. and_then (format_subfields d) (tag_content tag)))"

text \<open>\<open>_tag_data\<close>: all occurrences of a field.\<close>

definition tag_data :: "ustr \<Rightarrow> pyval \<Rightarrow> error + ustr list" where
  "tag_data tag data =
     (if \<not> truthy data then Inr []
      else map_err (tag_occ tag) (case data of PList xs \<Rightarrow> xs | _ \<Rightarrow> [data]))"

text \<open>
  \<open>_format_record\<close>: the keys are read as integers and sorted, and each is looked up
  again under the text of its integer (\<open>KeyError\<close> when that text is not a key).
\<close>

definition format_record :: "IDFile \<Rightarrow> pyval \<Rightarrow> error + ustr" where
  "format_record self record =
     (if \<not> truthy record then Inr []
      else case record of
        PDict d \<Rightarrow>
          and_then
            (map_err (\<lambda>s. case int_of_str s of None \<Rightarrow> Inl ValueError | Some i \<Rightarrow> Inr i)
               (map fst d))
            (\<lambda>tags.
               and_then
                 (map_err
                    (\<lambda>tag_i. let tag = str_int tag_i
                       in case map_of d tag of
                            None \<Rightarrow> Inl KeyError
                          | Some data \<Rightarrow> tag_data tag data)
                    (sort tags))
                 (\<lambda>items.
                    let result = concat (concat items)
                    in Inr (case content_formatter self of
                              None \<Rightarrow> result
                            | Some f \<Rightarrow> f result)))
      | _ \<Rightarrow> Inl AttributeError)"

text \<open>\<open>_format_file\<close>: the loop over the records, \<open>index\<close> counting from 1.\<close>

fun format_file_loop :: "IDFile \<Rightarrow> int \<Rightarrow> pyval list \<Rightarrow> error + ustr list" where
  "format_file_loop self index [] = Inr []"
| "format_file_loop self index (item # records) =
     and_then (format_id (index + 1))
       (\<lambda>a. and_then (format_record self item)
          (\<lambda>b. and_then (format_file_loop self (index + 1) records)
             (\<lambda>r. Inr ((a @ b) # r))))"

definition format_file :: "IDFile \<Rightarrow> pyval list \<Rightarrow> error + ustr" where
  "format_file self records = and_then (format_file_loop self 0 records) (\<lambda>r. Inr (concat r))"

section \<open>Character references and the legacy charset\<close>

text \<open>
  \<open>html.unescape\<close> of the standard library replaces every match of the pattern
  \<^verbatim>\<open>&(#[0-9]+;?|#[xX][0-9a-fA-F]+;?|[^\t\n\f <&#;]{1,32};?)\<close>, scanning from the left.
  \<open>charref_len\<close> is the length of the group matched after an ampersand, if any. The
  table of named references (\<open>html.entities.html5\<close>, 2231 entries) is a parameter.
  (Python 3.11 and later refuse a decimal reference of more than 4300 digits; the model
  is that of the earlier versions, which accept any number of digits.)
\<close>

definition isdigit :: "nat \<Rightarrow> bool" where
  "isdigit c \<longleftrightarrow> 48 \<le> c \<and> c \<le> 57"

definition isxdigit :: "nat \<Rightarrow> bool" where
  "isxdigit c \<longleftrightarrow> isdigit c \<or> (65 \<le> c \<and> c \<le> 70) \<or> (97 \<le> c \<and> c \<le> 102)"

definition isnamechar :: "nat \<Rightarrow> bool" where
  "isnamechar c \<longleftrightarrow> c \<notin> {9, 10, 12, 32, 60, 38, 35, 59}"

definition opt_semicolon :: "ustr \<Rightarrow> nat" where
  "opt_semicolon s = (case s of [] \<Rightarrow> 0 | c # cs \<Rightarrow> if c = 59 then 1 else 0)"

definition charref_len :: "ustr \<Rightarrow> nat option" where
  "charref_len s =
     (case s of
        [] \<Rightarrow> None
      | c # cs \<Rightarrow>
          if c = 35 then
            (let n = length (takeWhile isdigit cs)
             in if 0 < n then Some (1 + n + opt_semicolon (drop n cs))
                else case cs of
                       [] \<Rightarrow> None
                     | x # hs \<Rightarrow>
                         let m = length (takeWhile isxdigit hs)
                         in if (x = 120 \<or> x = 88) \<and> 0 < m
                            then Some (2 + m + opt_semicolon (drop m hs))
                            else None)
          else
            (let n = min 32 (length (takeWhile isnamechar s))
             in if 0 < n then Some (n + opt_semicolon (drop n s)) else None))"

text \<open>\<open>int(s, 10)\<close> and \<open>int(s, 16)\<close> on a string of ASCII digits.\<close>

definition xdigit_val :: "nat \<Rightarrow> nat" where
  "xdigit_val c = (if c \<le> 57 then c - 48 else if c \<le> 70 then c - 55 else c - 87)"

definition num_val :: "nat \<Rightarrow> ustr \<Rightarrow> nat" where
  "num_val base s = foldl (\<lambda>acc c. base * acc + xdigit_val c) 0 s"

definition invalid_charrefs :: "(nat \<times> nat) list" where
  "invalid_charrefs =
    [(0x00, 0xfffd), (0x0d, 0x0d), (0x80, 0x20ac), (0x81, 0x81), (0x82, 0x201a),
     (0x83, 0x0192), (0x84, 0x201e), (0x85, 0x2026), (0x86, 0x2020), (0x87, 0x2021),
     (0x88, 0x02c6), (0x89, 0x2030), (0x8a, 0x0160), (0x8b, 0x2039), (0x8c, 0x0152),
     (0x8d, 0x8d), (0x8e, 0x017d), (0x8f, 0x8f), (0x90, 0x90), (0x91, 0x2018),
     (0x92, 0x2019), (0x93, 0x201c), (0x94, 0x201d), (0x95, 0x2022), (0x96, 0x2013),
     (0x97, 0x2014), (0x98, 0x02dc), (0x99, 0x2122), (0x9a, 0x0161), (0x9b, 0x203a),
     (0x9c, 0x0153), (0x9d, 0x9d), (0x9e, 0x017e), (0x9f, 0x0178)]"

definition invalid_codepoint :: "nat \<Rightarrow> bool" where
  "invalid_codepoint n \<longleftrightarrow>
     (0x1 \<le> n \<and> n \<le> 0x8) \<or> (0xe \<le> n \<and> n \<le> 0x1f) \<or> (0x7f \<le> n \<and> n \<le> 0x9f)
     \<or> (0xfdd0 \<le> n \<and> n \<le> 0xfdef) \<or> n = 0xb
     \<or> (n \<le> 0x10ffff \<and> (n mod 0x10000 = 0xfffe \<or> n mod 0x10000 = 0xffff))"

text \<open>\<open>_replace_charref\<close>, applied to the group matched after the ampersand.\<close>

definition replace_charref :: "(ustr \<times> ustr) list \<Rightarrow> ustr \<Rightarrow> ustr" where
  "replace_charref html5 s =
     (if hd s = 35 then
        (let body = rev (dropWhile (\<lambda>c. c = 59) (rev (tl s)));
             num = (if hd body = 120 \<or> hd body = 88 then num_val 16 (tl body)
                    else num_val 10 body)
         in case map_of invalid_charrefs num of
              Some c \<Rightarrow> [c]
            | None \<Rightarrow>
                if (0xD800 \<le> num \<and> num \<le> 0xDFFF) \<or> num > 0x10FFFF then [0xFFFD]
                else if invalid_codepoint num then []
                else [num])
      else
        (case map_of html5 s of
           Some r \<Rightarrow> r
         | None \<Rightarrow>
             (case find (\<lambda>x. map_of html5 (take x s) \<noteq> None) (rev [2..<length s]) of
                Some x \<Rightarrow> the (map_of html5 (take x s)) @ drop x s
              | None \<Rightarrow> 38 # s)))"

fun charref_sub :: "(ustr \<times> ustr) list \<Rightarrow> ustr \<Rightarrow> ustr" where
  "charref_sub html5 [] = []"
| "charref_sub html5 (c # cs) =
     (if c = 38 then
        (case charref_len cs of
           Some k \<Rightarrow> replace_charref html5 (take k cs) @ charref_sub html5 (drop k cs)
         | None \<Rightarrow> c # charref_sub html5 cs)
      else c # charref_sub html5 cs)"

definition unescape :: "(ustr \<times> ustr) list \<Rightarrow> ustr \<Rightarrow> ustr" where
  "unescape html5 s = (if 38 \<notin> set s then s else charref_sub html5 s)"

text \<open>
  \<open>encoding.py\<close>. A text is a \<open>str\<close> or a \<open>bytes\<close> object; the codec calls \<open>encode\<close>
  and \<open>decode\<close> with \<open>iso-8859-1\<close> only, where a byte and the code point of the same
  number stand for each other. \<open>encode\<close> first tries the strict encoding and, on
  \<open>UnicodeEncodeError\<close>, encodes again with \<open>xmlcharrefreplace\<close>; a \<open>bytes\<close> object has
  no \<open>encode\<close>, a \<open>str\<close> no \<open>decode\<close>, and both come back unchanged.
\<close>

datatype py_text = Str ustr | Bytes "nat list"

definition xmlcharrefreplace :: "ustr \<Rightarrow> nat list" where
  "xmlcharrefreplace s =
     concat (map (\<lambda>c. if c < 256 then [c] else u ''&#'' @ digits c @ u '';'') s)"

fun encode :: "py_text \<Rightarrow> py_text" where
  "encode (Str s) = (if \<forall>c \<in> set s. c < 256 then Bytes s else Bytes (xmlcharrefreplace s))"
| "encode (Bytes b) = Bytes b"

fun decode :: "py_text \<Rightarrow> py_text" where
  "decode (Bytes b) = Str b"
| "decode (Str s) = Str s"

fun the_text :: "py_text \<Rightarrow> ustr" where
  "the_text (Str s) = s"
| "the_text (Bytes b) = b"

section \<open>Files\<close>

text \<open>
  The file system as far as the codec touches it: the bytes of each file, the paths that
  are directories, the paths that cannot be opened for writing, and the paths whose
  write failure was printed (\<open>write\<close> catches the failure and prints a message). Paths
  are compared as texts; access rights and links are not modelled. An operation returns
  the file system it leaves behind and the exception it raised, if any.
\<close>

record filesystem =
  files :: "ustr \<Rightarrow> nat list option"
  isdir :: "ustr \<Rightarrow> bool"
  locked :: "ustr \<Rightarrow> bool"
  printed :: "ustr list"

text \<open>
  \<open>posixpath.split\<close> cuts a path after its last slash and strips the slashes at the
  end of the head unless it consists of slashes only; \<open>os.path.dirname\<close> is that head.
\<close>

definition rstrip_sep :: "ustr \<Rightarrow> ustr" where
  "rstrip_sep s = rev (dropWhile (\<lambda>c. c = 47) (rev s))"

definition path_split :: "ustr \<Rightarrow> ustr \<times> ustr" where
  "path_split p =
     (let tail = rev (takeWhile (\<lambda>c. c \<noteq> 47) (rev p));
          head = take (length p - length tail) p
      in (if head \<noteq> [] \<and> \<not> list_all (\<lambda>c. c = 47) head then rstrip_sep head else head,
          tail))"

definition dirname :: "ustr \<Rightarrow> ustr" where
  "dirname p = fst (path_split p)"

definition path_exists :: "filesystem \<Rightarrow> ustr \<Rightarrow> bool" where
  "path_exists fs p \<longleftrightarrow> isdir fs p \<or> files fs p \<noteq> None"

text \<open>
  \<open>os.mkdir\<close>: the empty path does not name anything (\<open>FileNotFoundError\<close>), an
  existing path is refused (\<open>FileExistsError\<close>), and the directory above, unless it
  is the current one, must be a directory.
\<close>

definition mkdir :: "filesystem \<Rightarrow> ustr \<Rightarrow> filesystem \<times> error option" where
  "mkdir fs name =
     (let parent = dirname (rstrip_sep name)
      in if name = [] then (fs, Some FileNotFoundError)
         else if path_exists fs name then (fs, Some FileExistsError)
         else if parent \<noteq> [] \<and> files fs parent \<noteq> None then (fs, Some NotADirectoryError)
         else if parent \<noteq> [] \<and> \<not> isdir fs parent then (fs, Some FileNotFoundError)
         else (fs\<lparr>isdir := (isdir fs)(name := True)\<rparr>, None))"

text \<open>
  \<open>os.makedirs\<close> (with \<open>exist_ok=False\<close>): the head and tail of the name, taken again
  from the head when the name ends with a slash; the directories above are made first
  when the head does not exist.
\<close>

definition makedirs_split :: "ustr \<Rightarrow> ustr \<times> ustr" where
  "makedirs_split name =
     (let (head, tail) = path_split name
      in if tail = [] then path_split head else (head, tail))"

function makedirs :: "filesystem \<Rightarrow> ustr \<Rightarrow> filesystem \<times> error option" where
  "makedirs fs name =
     (let head = fst (makedirs_split name); tail = snd (makedirs_split name)
      in if head \<noteq> [] \<and> tail \<noteq> [] \<and> \<not> path_exists fs head
         then (case makedirs fs head of
                 (fs1, exc) \<Rightarrow>
                   if exc = None \<or> exc = Some FileExistsError
                   then (if tail = u ''.'' then (fs1, None) else mkdir fs1 name)
                   else (fs1, exc))
         else mkdir fs name)"
  by pat_completeness auto
termination
proof (relation "measure (\<lambda>(fs, name). length name)")
  show "wf (measure (\<lambda>(fs, name). length name))" by simp
next
  fix fs :: filesystem and name x xa :: ustr
  assume x: "x = fst (makedirs_split name)" and xa: "xa = snd (makedirs_split name)"
    and c: "x \<noteq> [] \<and> xa \<noteq> [] \<and> \<not> path_exists fs x"
  have le: "length (fst (path_split p)) + length (snd (path_split p)) \<le> length p" for p
  proof -
    let ?t = "rev (takeWhile (\<lambda>c. c \<noteq> 47) (rev p))"
    let ?h = "take (length p - length ?t) p"
    have "length ?t \<le> length p" using length_takeWhile_le [of _ "rev p"] by simp
    then have "length ?h + length ?t \<le> length p" by simp
    moreover have "length (rstrip_sep ?h) \<le> length ?h"
      using length_dropWhile_le [of _ "rev ?h"] by (simp add: rstrip_sep_def)
    ultimately show ?thesis by (simp add: path_split_def Let_def)
  qed
  have "length x < length name"
  proof (cases "snd (path_split name) = []")
    case True
    then have "makedirs_split name = path_split (fst (path_split name))"
      by (cases "path_split name") (simp add: makedirs_split_def)
    then have "length x + length xa \<le> length (fst (path_split name))"
      using le [of "fst (path_split name)"] x xa by simp
    then show ?thesis using le [of name] c by (cases xa) auto
  next
    case False
    then have "makedirs_split name = path_split name"
      by (cases "path_split name") (simp add: makedirs_split_def)
    then have "length x + length xa \<le> length name" using le [of name] x xa by simp
    then show ?thesis using c by (cases xa) auto
  qed
  then show "((fs, x), fs, name) \<in> measure (\<lambda>(fs, name). length name)" by simp
qed

declare makedirs.simps [simp del]

text \<open>Reading in text mode turns \<open>\r\n\<close> and \<open>\r\<close> into \<open>\n\<close>.\<close>

fun universal_newlines :: "ustr \<Rightarrow> ustr" where
  "universal_newlines [] = []"
| "universal_newlines [c] = [if c = 13 then 10 else c]"
| "universal_newlines (c # d # ds) =
     (if c = 13 then (if d = 10 then 10 # universal_newlines ds
                      else 10 # universal_newlines (d # ds))
      else c # universal_newlines (d # ds))"

definition read_file :: "filesystem \<Rightarrow> ustr \<Rightarrow> error + ustr" where
  "read_file fs filename =
     (case files fs filename of
        None \<Rightarrow> Inl FileNotFoundError
      | Some bytes \<Rightarrow> Inr (universal_newlines bytes))"

section \<open>The parser (\<open>isisinterface.py\<close>)\<close>

text \<open>\<open>_get_field_data\<close>: \<open>subf[0]\<close> raises \<open>IndexError\<close> on an empty segment.\<close>

fun add_subfields :: "(ustr \<times> pyval) list \<Rightarrow> ustr list \<Rightarrow> error + (ustr \<times> pyval) list" where
  "add_subfields d [] = Inr d"
| "add_subfields d (subf # rest) =
     (case subf of
        [] \<Rightarrow> Inl IndexError
      | c # cs \<Rightarrow> add_subfields (AList.update [c] (PStr cs) d) rest)"

definition get_field_data :: "ustr \<Rightarrow> error + pyval" where
  "get_field_data field_content =
     (let subfields = map (replace PRESERVECIRC (u ''^'')) (split_on (u ''^'') field_content)
      in if length subfields = 1 then Inr (PStr (hd subfields))
         else and_then
                (add_subfields
                   (if hd subfields \<noteq> [] then [(u ''_'', PStr (hd subfields))] else [])
                   (tl subfields))
                (\<lambda>d. Inr (PDict d)))"

text \<open>\<open>_get_record_data\<close>: the occurrences of each tag, then the scalar collapse.\<close>

fun record_fields :: "(ustr \<times> pyval list) list \<Rightarrow> ustr list \<Rightarrow> error + (ustr \<times> pyval list) list" where
  "record_fields data [] = Inr data"
| "record_fields data (field # rest) =
     (case int_of_str (take 3 field) of
        None \<Rightarrow> Inl ValueError
      | Some n \<Rightarrow>
          and_then (get_field_data (strip (drop 4 field)))
            (\<lambda>field_data.
               let field_tag = str_int n;
                   occs = (case map_of data field_tag of None \<Rightarrow> [] | Some l \<Rightarrow> l)
               in record_fields (AList.update field_tag (occs @ [field_data]) data) rest))"

definition get_record_data :: "ustr \<Rightarrow> error + pyval" where
  "get_record_data record =
     and_then (record_fields [] (tl (split_on (10 # u ''!v'') record)))
       (\<lambda>data. Inr (PDict (map (\<lambda>(tag, tag_content).
                   (tag, if length tag_content = 1 then hd tag_content else PList tag_content))
                 data)))"

definition IDFile_read :: "(ustr \<times> ustr) list \<Rightarrow> filesystem \<Rightarrow> ustr \<Rightarrow> error + pyval list" where
  "IDFile_read html5 fs filename =
     and_then (read_file fs filename)
       (\<lambda>iso_content.
          let utf8_content = the_text (decode (Str iso_content));
              utf8_content = unescape html5 utf8_content;
              utf8_content = replace ESCAPED_CIRC PRESERVECIRC utf8_content;
              records = split_on (u ''!ID '') utf8_content
          in map_err get_record_data (tl records))"

text \<open>
  \<open>IDFile.write\<close>. The directory of the file is looked up and, if it is not there, made
  before anything is formatted; for a file name without a directory part the path is
  empty and \<open>os.makedirs\<close> raises \<open>FileNotFoundError\<close>. The content is assembled
  next, so an exception of the formatter leaves every file as it was. Opening the file
  truncates it; a character the charset lacks would then fail the write, and the failure
  is printed, as is the failure to open the file.
\<close>

definition write_content :: "(ustr \<times> ustr) list \<Rightarrow> IDFile \<Rightarrow> pyval list \<Rightarrow> error + ustr" where
  "write_content html5 self records =
     and_then (format_file self records)
       (\<lambda>content.
          let content = unescape html5 content;
              content = replace PRESERVECIRC ESCAPED_CIRC content;
              content = the_text (decode (encode (Str content)))
          in Inr content)"

definition IDFile_write ::
  "(ustr \<times> ustr) list \<Rightarrow> IDFile \<Rightarrow> filesystem \<Rightarrow> ustr \<Rightarrow> pyval list
     \<Rightarrow> filesystem \<times> error option" where
  "IDFile_write html5 self fs filename records =
     (let path = dirname filename
      in case (if \<not> isdir fs path then makedirs fs path else (fs, None)) of
           (fs1, Some e) \<Rightarrow> (fs1, Some e)
         | (fs1, None) \<Rightarrow>
             (case write_content html5 self records of
                Inl e \<Rightarrow> (fs1, Some e)
              | Inr content \<Rightarrow>
                  if locked fs1 filename \<or> isdir fs1 filename
                  then (fs1\<lparr>printed := printed fs1 @ [filename]\<rparr>, None)
                  else if \<forall>c \<in> set content. c < 256
                  then (fs1\<lparr>files := (files fs1)(filename \<mapsto> content)\<rparr>, None)
                  else (fs1\<lparr>files := (files fs1)(filename \<mapsto> []),
                             printed := printed fs1 @ [filename]\<rparr>, None)))"

text \<open>Python's \<open>==\<close> on the values of a record: dicts compare without regard to order.\<close>

fun py_eq :: "pyval \<Rightarrow> pyval \<Rightarrow> bool" where
  "py_eq PNone PNone = True"
| "py_eq (PStr a) (PStr b) = (a = b)"
| "py_eq (PList xs) (PList ys) = list_all2 py_eq xs ys"
| "py_eq (PDict d) (PDict e) =
     (length d = length e \<and>
      list_all (\<lambda>(k, v). case map_of e k of None \<Rightarrow> False | Some w \<Rightarrow> py_eq v w) d)"
| "py_eq _ _ = False"

section \<open>Notions used in the properties\<close>

text \<open>The default codec object, \<open>IDFile()\<close>, has no content formatter.\<close>

definition IDFile_default :: IDFile where
  "IDFile_default = \<lparr>content_formatter = None\<rparr>"

text \<open>A tag is valid when it reads as an integer between 1 and 999.\<close>

definition valid_tag :: "ustr \<Rightarrow> bool" where
  "valid_tag tag = (case int_of_str tag of None \<Rightarrow> False | Some n \<Rightarrow> 0 < n \<and> n \<le> 999)"

text \<open>
  A field value that is empty at the top: an empty string, list or mapping (or \<open>None\<close>),
  or a list all of whose elements are such.
\<close>

fun all_empty :: "pyval \<Rightarrow> bool" where
  "all_empty (PList xs) = list_all (\<lambda>x. \<not> truthy x) xs"
| "all_empty v = (\<not> truthy v)"

text \<open>
  An empty occurrence: an empty value, or a subfield set all of whose values (main
  value included) are empty. An empty field: an empty occurrence or a list of them.
\<close>

fun empty_occ :: "pyval \<Rightarrow> bool" where
  "empty_occ (PDict d) = list_all (\<lambda>(k, v). \<not> truthy v) d"
| "empty_occ v = (\<not> truthy v)"

fun empty_field :: "pyval \<Rightarrow> bool" where
  "empty_field (PList xs) = list_all empty_occ xs"
| "empty_field v = empty_occ v"

text \<open>
  The entries of a subfield set that are left out: those with an empty value, and those
  whose key is one character other than \<open>_\<close> outside \<open>a-z\<close>, \<open>1-9\<close>.
\<close>

definition subfield_codes :: ustr where
  "subfield_codes = u ''abcdefghijklmnopqrstuvwxyz123456789''"

fun dropped_entry :: "ustr \<times> pyval \<Rightarrow> bool" where
  "dropped_entry (k, v) \<longleftrightarrow>
     \<not> truthy v \<or> (length k = 1 \<and> k \<noteq> u ''_'' \<and> hd k \<notin> set subfield_codes)"

text \<open>The token \<open>_format_subfield\<close> renders for an entry whose value is a string.\<close>

fun subfield_token :: "ustr \<times> pyval \<Rightarrow> ustr" where
  "subfield_token (k, PStr s) =
     (if s \<noteq> [] \<and> sublist k subfield_codes then u ''^'' @ k @ format_text s else [])"
| "subfield_token (k, v) = []"

fun is_str :: "pyval \<Rightarrow> bool" where
  "is_str (PStr s) = True"
| "is_str v = False"

text \<open>
  The occurrences of a tag in a raw record body, in stream order: the parse results of
  the field segments whose first three characters read as that tag.
\<close>

definition tag_occurrences :: "ustr \<Rightarrow> ustr list \<Rightarrow> (error + pyval) list" where
  "tag_occurrences tag flds =
     map (\<lambda>f. get_field_data (strip (drop 4 f)))
       (filter (\<lambda>f. map_option str_int (int_of_str (take 3 f)) = Some tag) flds)"

fun is_list :: "pyval \<Rightarrow> bool" where
  "is_list (PList xs) = True"
| "is_list v = False"

text \<open>The occurrences the parser has accumulated for a tag (none when the tag is new).\<close>

definition olist :: "(ustr \<times> pyval list) list \<Rightarrow> ustr \<Rightarrow> pyval list" where
  "olist data tag = (case map_of data tag of None \<Rightarrow> [] | Some l \<Rightarrow> l)"

text \<open>
  Records as the data model types them: a dict with distinct keys, each key the decimal
  text of an integer, each value a string, a subfield set with string values, or a list
  of these.
\<close>

fun wt_occ :: "pyval \<Rightarrow> bool" where
  "wt_occ (PStr s) = True"
| "wt_occ (PDict d) = list_all is_str (map snd d)"
| "wt_occ v = False"

fun wt_field :: "pyval \<Rightarrow> bool" where
  "wt_field (PList xs) = list_all wt_occ xs"
| "wt_field v = wt_occ v"

definition canonical_key :: "ustr \<Rightarrow> bool" where
  "canonical_key k = (case int_of_str k of None \<Rightarrow> False | Some n \<Rightarrow> str_int n = k)"

fun wt_record :: "pyval \<Rightarrow> bool" where
  "wt_record (PDict d) =
     (distinct (map fst d) \<and> list_all (\<lambda>(k, v). canonical_key k \<and> wt_field v) d)"
| "wt_record v = False"

text \<open>
  A field has content when it is a non-empty value other than a list, or a list with a
  non-empty element. A record has a bad tag when a field with content stands under a
  tag outside 1 to 999.
\<close>

fun has_content :: "pyval \<Rightarrow> bool" where
  "has_content (PList xs) = list_ex truthy xs"
| "has_content v = truthy v"

fun bad_tag_record :: "pyval \<Rightarrow> bool" where
  "bad_tag_record (PDict d) = list_ex (\<lambda>(k, v). \<not> valid_tag k \<and> has_content v) d"
| "bad_tag_record v = False"

text \<open>
  Concrete surroundings for the examples: a file system with no files or directories,
  one whose only directory is \<open>out\<close>, and a few entries of the table of named
  references (the examples do not depend on the others).
\<close>

definition empty_fs :: filesystem where
  "empty_fs = \<lparr>files = (\<lambda>_. None), isdir = (\<lambda>_. False), locked = (\<lambda>_. False), printed = []\<rparr>"

definition out_fs :: filesystem where
  "out_fs = empty_fs\<lparr>isdir := (\<lambda>p. p = u ''out'')\<rparr>"

definition html5_sample :: "(ustr \<times> ustr) list" where
  "html5_sample =
     [(u ''amp;'', u ''&''), (u ''amp'', u ''&''), (u ''lt;'', u ''<''), (u ''lt'', u ''<''),
      (u ''gt;'', u ''>''), (u ''gt'', u ''>''), (u ''quot;'', [34]), (u ''quot'', [34]),
      (u ''Hat;'', u ''^'')]"

text \<open>
  \<open>has_char c v\<close>: the code point \<open>c\<close> occurs in a string of the value \<open>v\<close>, keys of
  dicts included. \<open>serializer_chars\<close> are the characters the serializer itself writes:
  those of the markers, the digits, the separators and the placeholder.
\<close>

fun has_char :: "nat \<Rightarrow> pyval \<Rightarrow> bool" where
  "has_char c PNone = False"
| "has_char c (PStr s) = (c \<in> set s)"
| "has_char c (PList xs) = list_ex (has_char c) xs"
| "has_char c (PDict d) = list_ex (\<lambda>(k, v). c \<in> set k \<or> has_char c v) d"

definition serializer_chars :: ustr where
  "serializer_chars = u ''!vID 0123456789,-^[PRESERVECIRC]'' @ [10]"

text \<open>\<open>parse(serialize(records))\<close>: write the records to a file, then read the file.\<close>

definition write_then_read ::
  "(ustr \<times> ustr) list \<Rightarrow> IDFile \<Rightarrow> filesystem \<Rightarrow> ustr \<Rightarrow> pyval list \<Rightarrow> error + pyval list" where
  "write_then_read html5 self fs filename records =
     (case IDFile_write html5 self fs filename records of
        (fs1, Some e) \<Rightarrow> Inl e
      | (fs1, None) \<Rightarrow> IDFile_read html5 fs1 filename)"

text \<open>
  Values that survive the round trip. A code point above 255 must be one that
  \<open>html.unescape\<close> gives back for its numeric reference. A text must be non-empty and
  already normalized (single spaces between words, none at the ends), without an
  ampersand or a backslash, and must not contain the placeholder or the record marker;
  a main value or plain string must also not begin with \<open>ID \<close>, which after the
  \<open>!\<close> of the field marker would read as a record marker.
\<close>

definition ok_codepoint :: "nat \<Rightarrow> bool" where
  "ok_codepoint c \<longleftrightarrow>
     c \<le> 0x10FFFF \<and> \<not> (0xD800 \<le> c \<and> c \<le> 0xDFFF) \<and> \<not> invalid_codepoint c"

definition ok_text :: "ustr \<Rightarrow> bool" where
  "ok_text s \<longleftrightarrow>
     s \<noteq> [] \<and> remove_break_lines_characters s = s \<and> 38 \<notin> set s \<and> 92 \<notin> set s
     \<and> \<not> sublist PRESERVECIRC s \<and> \<not> sublist (u ''!ID '') s
     \<and> list_all (\<lambda>c. c < 256 \<or> ok_codepoint c) s"

definition ok_main :: "ustr \<Rightarrow> bool" where
  "ok_main s \<longleftrightarrow> ok_text s \<and> \<not> prefix (u ''ID '') s"

text \<open>
  An occurrence is a plain string, or a subfield set with distinct keys that has at
  least one subfield besides the optional main value \<open>_\<close>, every subfield under a
  one-character code. A field is an occurrence or a non-empty list of occurrences; a
  record is a dict with distinct keys, each the decimal text of a tag from 1 to 999.
\<close>

fun rt_entry :: "ustr \<times> pyval \<Rightarrow> bool" where
  "rt_entry (k, PStr s) =
     (if k = u ''_'' then ok_main s
      else length k = 1 \<and> hd k \<in> set subfield_codes \<and> ok_text s)"
| "rt_entry (k, v) = False"

fun rt_occ :: "pyval \<Rightarrow> bool" where
  "rt_occ (PStr s) = ok_main s"
| "rt_occ (PDict d) =
     (distinct (map fst d) \<and> list_all rt_entry d \<and> list_ex (\<lambda>(k, v). k \<noteq> u ''_'') d)"
| "rt_occ v = False"

fun rt_field :: "pyval \<Rightarrow> bool" where
  "rt_field (PList xs) = (xs \<noteq> [] \<and> list_all rt_occ xs)"
| "rt_field v = rt_occ v"

fun rt_record :: "pyval \<Rightarrow> bool" where
  "rt_record (PDict d) =
     (distinct (map fst d) \<and>
      list_all (\<lambda>(k, v). canonical_key k \<and> valid_tag k \<and> rt_field v) d)"
| "rt_record v = False"

text \<open>The scalar collapse: a field given as a one-element list comes back as its element.\<close>

fun collapse_field :: "pyval \<Rightarrow> pyval" where
  "collapse_field (PList [x]) = x"
| "collapse_field v = v"

fun collapse_record :: "pyval \<Rightarrow> pyval" where
  "collapse_record (PDict d) = PDict (map (\<lambda>(k, v). (k, collapse_field v)) d)"
| "collapse_record v = v"

text \<open>A circumflex written as backslash and circumflex, as it stands in the file.\<close>

definition escape_circ :: "ustr \<Rightarrow> ustr" where
  "escape_circ s = concat (map (\<lambda>c. if c = 94 then ESCAPED_CIRC else [c]) s)"

text \<open>
  The references that \<open>html.unescape\<close> resolves in a text, from left to right: each
  matched text, ampersand included, with the text put in its place.
\<close>

fun charrefs :: "(ustr \<times> ustr) list \<Rightarrow> ustr \<Rightarrow> (ustr \<times> ustr) list" where
  "charrefs html5 [] = []"
| "charrefs html5 (c # cs) =
     (if c = 38 then
        (case charref_len cs of
           Some k \<Rightarrow> (c # take k cs, replace_charref html5 (take k cs)) # charrefs html5 (drop k cs)
         | None \<Rightarrow> charrefs html5 cs)
      else charrefs html5 cs)"

text \<open>
  The number of circumflexes of a text. In the stream that \<open>_format_file\<close> assembles they
  are the subfield delimiters; in the text that \<open>read\<close> splits into records
  (\<open>read_content\<close>, the text after the unescape pass and the substitution of the
  placeholder for the escape) they are what \<open>_get_field_data\<close> takes for delimiters.
\<close>

definition circs :: "ustr \<Rightarrow> nat" where
  "circs s = count_list s 94"

definition read_content :: "(ustr \<times> ustr) list \<Rightarrow> ustr \<Rightarrow> ustr" where
  "read_content html5 iso_content =
     replace ESCAPED_CIRC PRESERVECIRC (unescape html5 (the_text (decode (Str iso_content))))"

text \<open>
  A resolved reference \<open>adds_circ\<close> when its replacement holds more circumflexes than
  the reference itself (a name can run over a delimiter, which the replacement then
  keeps). On the parser's side it \<open>frees_circ\<close> when the replacement holds more
  circumflexes that are not escaped than the reference did, or when the reference ends
  with a backslash and the replacement does not, which would free a circumflex behind it.
  \<open>bare p s\<close> counts the circumflexes of \<open>s\<close> that no backslash precedes, \<open>p\<close> telling
  whether a backslash stands before \<open>s\<close>.
\<close>

fun adds_circ :: "ustr \<times> ustr \<Rightarrow> bool" where
  "adds_circ (r, t) \<longleftrightarrow> circs r < circs t"

fun frees_circ :: "ustr \<times> ustr \<Rightarrow> bool" where
  "frees_circ (r, t) \<longleftrightarrow>
     circs (replace ESCAPED_CIRC PRESERVECIRC r) < circs (replace ESCAPED_CIRC PRESERVECIRC t)
     \<or> (last r = 92 \<and> (t = [] \<or> last t \<noteq> 92))"

fun bare :: "bool \<Rightarrow> ustr \<Rightarrow> nat" where
  "bare p [] = 0"
| "bare p (c # cs) = (if c = 94 \<and> \<not> p then 1 else 0) + bare (c = 92) cs"

text \<open>A text is trimmed when it is not empty and neither begins nor ends with whitespace.\<close>

definition trimmed :: "ustr \<Rightarrow> bool" where
  "trimmed s \<longleftrightarrow> s \<noteq> [] \<and> \<not> isspace (hd s) \<and> \<not> isspace (last s)"

text \<open>
  The text that \<open>_format_subfields\<close> renders for an occurrence with string values: the
  main value, then the sorted tokens.
\<close>

fun occ_text :: "pyval \<Rightarrow> ustr" where
  "occ_text (PStr s) = format_text s"
| "occ_text (PDict d) =
     format_text (case map_of d (u ''_'') of Some (PStr s) \<Rightarrow> s | _ \<Rightarrow> [])
     @ concat (sort (map subfield_token d))"
| "occ_text v = []"

section \<open>Integers and their decimal text: lemmas\<close>

lemma replicate_numeral: "replicate (numeral k) x = x # replicate (pred_numeral k) x"
  by (simp add: numeral_eq_Suc)

lemma decimal_ascii: "48 \<le> c \<Longrightarrow> c \<le> 57 \<Longrightarrow> decimal c = Some (c - 48)"
  by (simp add: decimal_def decimal_zeros_def)

lemma digits_range: "c \<in> set (digits n) \<Longrightarrow> 48 \<le> c \<and> c \<le> 57"
proof (induction n arbitrary: c rule: digits.induct)
  case (1 n)
  show ?case
  proof (cases "n < 10")
    case True
    then show ?thesis using "1.prems" by (simp add: digits.simps [of n])
  next
    case False
    then have "c \<in> set (digits (n div 10)) \<or> c = 48 + n mod 10"
      using "1.prems" by (auto simp add: digits.simps [of n])
    then show ?thesis using "1.IH" [OF False, of c] by auto
  qed
qed

lemma digits_nonempty: "digits n \<noteq> []"
  by (subst digits.simps) simp

definition dec_fold :: "nat \<Rightarrow> ustr \<Rightarrow> nat" where
  "dec_fold acc ds = foldl (\<lambda>a c. 10 * a + (c - 48)) acc ds"

lemma dec_fold_Nil: "dec_fold acc [] = acc"
  by (simp add: dec_fold_def)

lemma dec_fold_Cons: "dec_fold acc (c # cs) = dec_fold (10 * acc + (c - 48)) cs"
  by (simp add: dec_fold_def)

lemma int_digits_ascii:
  "\<forall>c \<in> set ds. 48 \<le> c \<and> c \<le> 57 \<Longrightarrow> int_digits acc ds = Some (dec_fold acc ds)"
proof (induction acc ds rule: int_digits.induct)
  case (1 acc)
  then show ?case by (simp add: dec_fold_Nil)
next
  case (2 acc c)
  then have "decimal c = Some (c - 48)" by (simp add: decimal_ascii)
  then show ?case by (simp add: dec_fold_Nil dec_fold_Cons)
next
  case (3 acc c c' cs)
  have d: "decimal c = Some (c - 48)" using "3.prems" by (simp add: decimal_ascii)
  have "int_digits (10 * acc + (c - 48)) (c' # cs) = Some (dec_fold (10 * acc + (c - 48)) (c' # cs))"
    using "3.IH"(2) [OF d] "3.prems" by simp
  then show ?case
    unfolding int_digits.simps d option.case dec_fold_Cons [of acc c] .
qed

lemma dec_fold_digits: "dec_fold 0 (digits n) = n"
proof (induction n rule: digits.induct)
  case (1 n)
  show ?case
  proof (cases "n < 10")
    case True
    then show ?thesis by (simp add: digits.simps [of n] dec_fold_def)
  next
    case False
    have "dec_fold 0 (digits n) = 10 * dec_fold 0 (digits (n div 10)) + n mod 10"
      using False by (simp add: digits.simps [of n] dec_fold_def)
    then show ?thesis using "1.IH" [OF False] by simp
  qed
qed

lemma dec_fold_zeros: "dec_fold 0 (replicate k 48 @ ds) = dec_fold 0 ds"
  by (induction k) (simp_all add: dec_fold_def)

lemma int_space_digit: "48 \<le> c \<Longrightarrow> c \<le> 57 \<Longrightarrow> \<not> int_space c"
  by (auto simp: int_space_def isspace_def)

lemma int_of_str_digits:
  assumes "\<forall>c \<in> set ds. 48 \<le> c \<and> c \<le> 57" "ds \<noteq> []"
  shows "int_of_str ds = Some (int (dec_fold 0 ds))"
proof -
  obtain c cs where ds: "ds = c # cs" using assms(2) by (cases ds) auto
  have c: "48 \<le> c" "c \<le> 57" using assms(1) ds by auto
  have l: "48 \<le> last ds \<and> last ds \<le> 57" using assms by (metis last_in_set)
  have "dropWhile int_space ds = ds" using c ds by (simp add: int_space_digit)
  moreover have "dropWhile int_space (rev ds) = rev ds"
    using l assms(2) by (cases "rev ds") (auto simp: int_space_digit last_rev hd_rev)
  ultimately have t: "rev (dropWhile int_space (rev (dropWhile int_space ds))) = ds" by simp
  have "int_digits (c - 48) cs = Some (dec_fold (c - 48) cs)"
    using int_digits_ascii assms(1) ds by simp
  moreover have "dec_fold (c - 48) cs = dec_fold 0 ds" by (simp add: ds dec_fold_def)
  ultimately show ?thesis
    unfolding int_of_str_def t using c by (simp add: ds decimal_ascii)
qed

lemma int_of_str_str_int: "int_of_str (str_int i) = Some i"
proof (cases "i < 0")
  case False
  then show ?thesis
    using int_of_str_digits [of "digits (nat i)"] digits_range digits_nonempty
    by (simp add: str_int_def dec_fold_digits)
next
  case True
  let ?ds = "digits (nat (- i))"
  have v: "int (dec_fold 0 ?ds) = - i" using True by (simp add: dec_fold_digits)
  obtain c cs where ds: "?ds = c # cs" using digits_nonempty [of "nat (- i)"] by (cases ?ds) auto
  have r: "\<forall>c \<in> set ?ds. 48 \<le> c \<and> c \<le> 57" using digits_range by blast
  have c: "48 \<le> c" "c \<le> 57" using r ds by auto
  have l: "48 \<le> last ?ds \<and> last ?ds \<le> 57" using r digits_nonempty by (metis last_in_set)
  have d1: "dropWhile int_space (45 # ?ds) = 45 # ?ds" by (simp add: int_space_def isspace_def)
  have "dropWhile int_space (rev (45 # ?ds)) = rev (45 # ?ds)"
    using l digits_nonempty [of "nat (- i)"]
    by (cases "rev ?ds") (auto simp: int_space_digit last_rev hd_rev)
  then have t: "rev (dropWhile int_space (rev (dropWhile int_space (45 # ?ds)))) = 45 # ?ds"
    unfolding d1 by simp
  have "int_digits (c - 48) cs = Some (dec_fold (c - 48) cs)"
    using int_digits_ascii r ds by simp
  moreover have "dec_fold (c - 48) cs = dec_fold 0 ?ds" by (simp add: ds dec_fold_def)
  ultimately have "int_of_str (45 # ?ds) = Some (- int (dec_fold 0 ?ds))"
    unfolding int_of_str_def t using c by (simp add: ds decimal_ascii)
  then show ?thesis using True v by (simp add: str_int_def)
qed

section \<open>Empty values and the tag range check\<close>

lemma tag_data_all_empty:
  assumes "all_empty data"
  shows "\<exists>items. tag_data tag data = Inr items \<and> concat items = []"
proof (cases "truthy data")
  case False
  then show ?thesis by (simp add: tag_data_def)
next
  case True
  then obtain xs where xs: "data = PList xs" using assms by (cases data) auto
  have e: "\<forall>x \<in> set xs. \<not> truthy x" using assms xs by (simp add: list_all_iff)
  have "\<forall>x \<in> set ys. \<not> truthy x \<Longrightarrow> map_err (tag_occ tag) ys = Inr (map (\<lambda>_. []) ys)" for ys
    by (induction ys) (simp_all add: tag_occ_def)
  then have "tag_data tag data = Inr (map (\<lambda>_. []) xs)"
    using e True xs by (simp add: tag_data_def)
  then show ?thesis by simp
qed

lemma unescape_no_amp: "38 \<notin> set s \<Longrightarrow> unescape html5 s = s"
  by (simp add: unescape_def)

lemma id_line_1: "format_id 1 = Inr (u ''!ID 000001'' @ [10])"
  by (simp add: format_id_def MAX_DIGITS_QTD_def str_int_def digits.simps zfill_def u_def
      replicate_numeral)

lemma write_content_only_id:
  "format_file self rs = Inr (u ''!ID 000001'' @ [10]) \<Longrightarrow>
   write_content html5 self rs = Inr (u ''!ID 000001'' @ [10])"
  by (simp add: write_content_def unescape_def u_def PRESERVECIRC_def)

text \<open>
  Claim C9. A field whose value is empty (an empty string, list or mapping), or a list
  whose elements are all empty, is dropped before \<open>_tag_content\<close> and its range check
  are reached: \<open>_tag_data\<close> returns without an exception and without text, whatever
  the tag is, and serializing a record that maps any integer tag \<open>n\<close> (in or out of
  range) to such a value yields the \<open>!ID\<close> line alone.
\<close>

theorem empty_field_skips_range_check:
  assumes "all_empty data"
  shows "(\<exists>items. tag_data tag data = Inr items \<and> concat items = []) \<and>
         write_content html5 IDFile_default [PDict [(str_int n, data)]]
           = Inr (u ''!ID 000001'' @ [10])"
proof -
  obtain items where it: "tag_data (str_int n) data = Inr items" "concat items = []"
    using tag_data_all_empty [OF assms] by blast
  have "format_record IDFile_default (PDict [(str_int n, data)]) = Inr []"
    using it by (simp add: format_record_def int_of_str_str_int IDFile_default_def)
  then have "format_file IDFile_default [PDict [(str_int n, data)]] = Inr (u ''!ID 000001'' @ [10])"
    by (simp add: format_file_def id_line_1)
  then show ?thesis
    using tag_data_all_empty [OF assms] write_content_only_id by blast
qed

theorem empty_field_skips_range_check_witness:
  "all_empty (PList [PStr [], PStr []]) \<and>
   (\<exists>items. tag_data (u ''0'') (PList [PStr [], PStr []]) = Inr items \<and> concat items = []) \<and>
   write_content [] IDFile_default [PDict [(u ''1000'', PList [PStr [], PStr []])]]
     = Inr (u ''!ID 000001'' @ [10])"
proof -
  have e: "all_empty (PList [PStr [], PStr []])" by simp
  have s: "str_int 1000 = u ''1000''" by (simp add: str_int_def digits.simps u_def)
  show ?thesis
    using empty_field_skips_range_check [OF e, of "u ''0''" "[]" 1000] e unfolding s by blast
qed

lemma format_text_empty: "format_text [] = []"
  by (simp add: format_text_def remove_break_lines_characters_def split_ws.simps strip_def)

lemma insort_Nil: "insort [] xs = [] # (xs :: nat list list)"
  by (cases xs) simp_all

lemma map_err_all_Inr:
  "\<forall>x \<in> set xs. f x = Inr (g x) \<Longrightarrow> map_err f xs = Inr (map g xs)"
  by (induction xs) simp_all

lemma format_subfields_all_empty:
  assumes "\<forall>(k, v) \<in> set d. \<not> truthy v"
  shows "format_subfields d = Inr []"
proof -
  have m: "(case map_of d (u ''_'') of None \<Rightarrow> PStr [] | Some v \<Rightarrow> if truthy v then v else PStr [])
      = PStr []"
  proof (cases "map_of d (u ''_'')")
    case None
    then show ?thesis by simp
  next
    case (Some v)
    then have "(u ''_'', v) \<in> set d" by (rule map_of_SomeD)
    then show ?thesis using assms Some by auto
  qed
  have "\<forall>x \<in> set d. (\<lambda>(k, v). format_subfield k v) x = Inr ((\<lambda>_. []) x)"
    using assms by (auto simp: format_subfield_def)
  then have v: "map_err (\<lambda>(k, v). format_subfield k v) d = Inr (map (\<lambda>_. []) d)"
    by (rule map_err_all_Inr)
  have "sort (map (\<lambda>_. []) d) = (map (\<lambda>_. []) d :: ustr list)"
    by (induction d) (simp_all add: insort_Nil)
  then show ?thesis
    unfolding format_subfields_def m by (simp add: v format_text_empty)
qed

lemma tag_occ_empty:
  assumes "valid_tag tag" "empty_occ x"
  shows "tag_occ tag x = Inr []"
proof (cases "truthy x")
  case False
  then show ?thesis by (simp add: tag_occ_def)
next
  case True
  then obtain d where d: "x = PDict d" using assms(2) by (cases x) auto
  have "\<forall>(k, v) \<in> set d. \<not> truthy v" using assms(2) d by (auto simp: list_all_iff)
  then have "format_subfields d = Inr []" by (rule format_subfields_all_empty)
  moreover have "tag_content tag [] = Inr []"
    using assms(1) by (auto simp: valid_tag_def tag_content_def split: option.splits)
  ultimately show ?thesis using True d by (simp add: tag_occ_def)
qed

text \<open>
  Claim C8. Under a valid tag, an empty value is dropped without an exception: an empty
  string, an empty list of occurrences, an empty subfield set, an occurrence whose main
  value and subfield values are all empty, and a list of such occurrences, give no text
  at all, hence no \<open>!v\<close> line.
\<close>

theorem empty_values_dropped:
  assumes "valid_tag tag" "empty_field data"
  shows "\<exists>items. tag_data tag data = Inr items \<and> concat items = []"
proof (cases "truthy data")
  case False
  then show ?thesis by (simp add: tag_data_def)
next
  case True
  show ?thesis
  proof (cases data)
    case (PList xs)
    then have "\<forall>x \<in> set xs. tag_occ tag x = Inr ((\<lambda>_. []) x)"
      using assms tag_occ_empty by (auto simp: list_all_iff)
    then have "map_err (tag_occ tag) xs = Inr (map (\<lambda>_. []) xs)" by (rule map_err_all_Inr)
    then show ?thesis using True PList by (simp add: tag_data_def)
  next
    case PNone
    then show ?thesis using True by simp
  next
    case (PStr s)
    then have "tag_occ tag data = Inr []" using assms tag_occ_empty by simp
    then show ?thesis using True PStr by (simp add: tag_data_def)
  next
    case (PDict d)
    then have "tag_occ tag data = Inr []" using assms tag_occ_empty by simp
    then show ?thesis using True PDict by (simp add: tag_data_def)
  qed
qed

lemma valid_tag_245: "valid_tag (u ''245'')"
  by (simp add: valid_tag_def int_of_str_def u_def int_space_def isspace_def decimal_def
      decimal_zeros_def)

theorem empty_values_dropped_witness:
  "valid_tag (u ''245'') \<and>
   empty_field (PList [PStr [], PDict [], PDict [(u ''_'', PStr []), (u ''a'', PStr [])]]) \<and>
   (\<exists>items. tag_data (u ''245'')
       (PList [PStr [], PDict [], PDict [(u ''_'', PStr []), (u ''a'', PStr [])]]) = Inr items
     \<and> concat items = [])"
proof -
  have e: "empty_field (PList [PStr [], PDict [], PDict [(u ''_'', PStr []), (u ''a'', PStr [])]])"
    by simp
  show ?thesis using empty_values_dropped [OF valid_tag_245 e] valid_tag_245 e by blast
qed

section \<open>Subfields: omitted entries and the order of the tokens\<close>

lemma sublist_single: "sublist [c] ys \<Longrightarrow> c \<in> set ys"
  using set_mono_sublist by fastforce

lemma format_subfield_dropped: "dropped_entry (k, v) \<Longrightarrow> format_subfield k v = Inr []"
proof (cases "truthy v")
  case False
  then show ?thesis by (simp add: format_subfield_def)
next
  case True
  assume "dropped_entry (k, v)"
  then have k: "length k = 1" "hd k \<notin> set subfield_codes" using True by auto
  then obtain c where "k = [c]" by (cases k) auto
  then have "\<not> sublist k subfield_codes" using k sublist_single by fastforce
  then show ?thesis by (simp add: format_subfield_def subfield_codes_def)
qed

lemma sort_empty_first:
  "sort ys = filter (\<lambda>y. y = []) ys @ sort (filter (\<lambda>y. y \<noteq> []) (ys :: ustr list))"
proof (rule properties_for_sort)
  show "mset (filter (\<lambda>y. y = []) ys @ sort (filter (\<lambda>y. y \<noteq> []) ys)) = mset ys"
    by (induction ys) simp_all
  have "sorted (filter (\<lambda>y. y = []) ys)" by (induction ys) auto
  then show "sorted (filter (\<lambda>y. y = []) ys @ sort (filter (\<lambda>y. y \<noteq> []) ys))"
    by (auto simp: sorted_append)
qed

lemma concat_sort_nonempty:
  "concat (sort ys) = concat (sort (filter (\<lambda>y. y \<noteq> []) (ys :: ustr list)))"
proof -
  have "concat (filter (\<lambda>y. y = []) ys) = []" by (induction ys) auto
  then show ?thesis by (subst sort_empty_first) simp
qed

lemma map_err_filter:
  assumes "\<forall>x \<in> set d. \<not> keep x \<longrightarrow> f x = Inr []"
  shows "case map_err f d of
           Inl e \<Rightarrow> map_err f (filter keep d) = Inl e
         | Inr ys \<Rightarrow> (\<exists>zs. map_err f (filter keep d) = Inr zs \<and>
              filter (\<lambda>y. y \<noteq> []) zs = filter (\<lambda>y. y \<noteq> []) ys)"
  using assms
proof (induction d)
  case Nil
  then show ?case by simp
next
  case (Cons x d)
  then have ih: "case map_err f d of
           Inl e \<Rightarrow> map_err f (filter keep d) = Inl e
         | Inr ys \<Rightarrow> (\<exists>zs. map_err f (filter keep d) = Inr zs \<and>
              filter (\<lambda>y. y \<noteq> []) zs = filter (\<lambda>y. y \<noteq> []) ys)"
    by simp
  show ?case
  proof (cases "keep x")
    case True
    then show ?thesis using ih by (auto split: sum.splits)
  next
    case False
    then have "f x = Inr []" using Cons.prems by simp
    then show ?thesis using ih False by (auto split: sum.splits)
  qed
qed

lemma main_value_filter:
  assumes "distinct (map fst d)"
  shows "(case map_of (filter (\<lambda>e. \<not> dropped_entry e) d) (u ''_'') of
            None \<Rightarrow> PStr [] | Some v \<Rightarrow> if truthy v then v else PStr [])
       = (case map_of d (u ''_'') of None \<Rightarrow> PStr [] | Some v \<Rightarrow> if truthy v then v else PStr [])"
  using assms
proof (induction d)
  case Nil
  then show ?case by simp
next
  case (Cons e d)
  obtain k' v' where e: "e = (k', v')" by (cases e)
  show ?case
  proof (cases "k' = u ''_''")
    case False
    then show ?thesis using Cons e by simp
  next
    case True
    then have "map_of d (u ''_'') = None" using Cons.prems e by (simp add: map_of_eq_None_iff)
    moreover have "map_of (filter (\<lambda>e. \<not> dropped_entry e) d) (u ''_'') = None"
      using Cons.prems e True by (auto simp: map_of_eq_None_iff image_iff)
    ultimately show ?thesis using e True by auto
  qed
qed

text \<open>
  Claim C10. In a subfield set, an entry with an empty value, or with a key of one
  character that is not a valid code (a key other than \<open>_\<close>, which holds the main value),
  renders to the empty string without an exception, and the occurrence is rendered as
  if the entry were not there: only the entries that are kept decide the output.
\<close>

theorem invalid_subfields_omitted:
  "(dropped_entry (k, v) \<longrightarrow> format_subfield k v = Inr []) \<and>
   (distinct (map fst d) \<longrightarrow>
      format_subfields d = format_subfields (filter (\<lambda>e. \<not> dropped_entry e) d))"
proof (intro conjI impI)
  assume "dropped_entry (k, v)"
  then show "format_subfield k v = Inr []" by (rule format_subfield_dropped)
next
  assume dist: "distinct (map fst d)"
  let ?f = "\<lambda>(k, v). format_subfield k v"
  let ?keep = "\<lambda>e. \<not> dropped_entry e"
  have "\<forall>x \<in> set d. \<not> ?keep x \<longrightarrow> ?f x = Inr []"
    using format_subfield_dropped by auto
  then have r: "case map_err ?f d of
           Inl e \<Rightarrow> map_err ?f (filter ?keep d) = Inl e
         | Inr ys \<Rightarrow> (\<exists>zs. map_err ?f (filter ?keep d) = Inr zs \<and>
              filter (\<lambda>y. y \<noteq> []) zs = filter (\<lambda>y. y \<noteq> []) ys)"
    by (rule map_err_filter)
  have v: "and_then (map_err ?f (filter ?keep d)) (\<lambda>values. Inr (first @ concat (sort values)))
      = and_then (map_err ?f d) (\<lambda>values. Inr (first @ concat (sort values)))" for first
  proof (cases "map_err ?f d")
    case (Inl e)
    then show ?thesis using r by simp
  next
    case (Inr ys)
    then obtain zs where zs: "map_err ?f (filter ?keep d) = Inr zs"
      "filter (\<lambda>y. y \<noteq> []) zs = filter (\<lambda>y. y \<noteq> []) ys"
      using r by auto
    have "concat (sort zs) = concat (sort ys)"
      using concat_sort_nonempty [of zs] concat_sort_nonempty [of ys] zs(2) by simp
    then show ?thesis using Inr zs(1) by simp
  qed
  show "format_subfields d = format_subfields (filter ?keep d)"
    unfolding format_subfields_def main_value_filter [OF dist] using v by simp
qed

lemma split_ws_Nil: "split_ws [] = []"
  by (simp add: split_ws.simps)

lemma split_ws_Cons:
  "split_ws (c # cs) =
     (if isspace c then split_ws cs
      else takeWhile (\<lambda>c. \<not> isspace c) (c # cs) # split_ws (dropWhile (\<lambda>c. \<not> isspace c) (c # cs)))"
proof (cases "isspace c")
  case True
  have "split_ws (c # cs) = (let t = dropWhile isspace cs in if t = [] then []
         else takeWhile (\<lambda>c. \<not> isspace c) t # split_ws (dropWhile (\<lambda>c. \<not> isspace c) t))"
    by (subst split_ws.simps) (simp add: True)
  also have "\<dots> = split_ws cs" by (subst (2) split_ws.simps) simp
  finally show ?thesis using True by simp
next
  case False
  then show ?thesis by (subst split_ws.simps) simp
qed


lemmas eval_simps = u_def PRESERVECIRC_def ESCAPED_CIRC_def subfield_codes_def isspace_def
  split_ws_Nil split_ws_Cons strip_def remove_break_lines_characters_def format_text_def
  format_subfield_def format_subfields_def sublist_code(3)

lemma map_err_Inl_D: "map_err f xs = Inl e \<Longrightarrow> \<exists>x \<in> set xs. f x = Inl e"
  by (induction xs arbitrary: e) (auto split: sum.splits)

lemma map_err_Inl_I: "x \<in> set xs \<Longrightarrow> f x = Inl e \<Longrightarrow> \<exists>e'. map_err f xs = Inl e'"
  by (induction xs) (auto split: sum.splits)

lemma map_err_Inr_D: "map_err f xs = Inr ys \<Longrightarrow> ys = map (\<lambda>x. projr (f x)) xs \<and> (\<forall>x \<in> set xs. \<exists>y. f x = Inr y)"
  by (induction xs arbitrary: ys) (auto split: sum.splits)

lemma format_value_error: "truthy v \<Longrightarrow> format_value v = Inl e \<Longrightarrow> e = AttributeError"
  by (cases v) (auto split: if_splits)

lemma format_subfield_error: "format_subfield k v = Inl e \<Longrightarrow> e = AttributeError"
  using format_value_error [of v e]
  by (cases "format_value v") (auto simp: format_subfield_def split: if_splits)

lemma map_err_perm:
  assumes "mset xs' = mset xs" "\<And>x e. f x = Inl e \<Longrightarrow> e = c"
  shows "case map_err f xs of
           Inl e \<Rightarrow> map_err f xs' = Inl c \<and> e = c
         | Inr ys \<Rightarrow> (\<exists>ys'. map_err f xs' = Inr ys' \<and> mset ys' = mset ys)"
proof (cases "map_err f xs")
  case (Inl e)
  have s: "set xs' = set xs" using assms(1) by (rule mset_eq_setD)
  obtain x where x: "x \<in> set xs" "f x = Inl e" using map_err_Inl_D [of f xs e] Inl by blast
  have x': "x \<in> set xs'" using x(1) s by simp
  obtain e' where e': "map_err f xs' = Inl e'" using map_err_Inl_I [of x xs' f e] x' x(2) by blast
  obtain x' where "f x' = Inl e'" using map_err_Inl_D [of f xs' e'] e' by blast
  then have "e' = c" by (rule assms(2))
  moreover have "e = c" using x(2) by (rule assms(2))
  ultimately show ?thesis using Inl e' by simp
next
  case (Inr ys)
  have s: "set xs' = set xs" using assms(1) by (rule mset_eq_setD)
  have ys: "ys = map (\<lambda>x. projr (f x)) xs" and ok: "\<forall>x \<in> set xs. \<exists>y. f x = Inr y"
    using map_err_Inr_D [of f xs ys] Inr by simp_all
  have "\<forall>x \<in> set xs'. f x = Inr (projr (f x))"
  proof
    fix x assume "x \<in> set xs'"
    then obtain y where "f x = Inr y" using ok s by auto
    then show "f x = Inr (projr (f x))" by simp
  qed
  then have "map_err f xs' = Inr (map (\<lambda>x. projr (f x)) xs')" by (rule map_err_all_Inr)
  moreover have "mset (map (\<lambda>x. projr (f x)) xs') = mset ys"
    unfolding ys mset_map assms(1) ..
  ultimately show ?thesis using Inr by simp
qed

lemma sort_mset_eq: "mset ys' = mset ys \<Longrightarrow> sort ys' = sort (ys :: ustr list)"
  by (rule properties_for_sort) simp_all

lemma format_subfields_perm:
  assumes "mset d' = mset d" "distinct (map fst d)"
  shows "format_subfields d' = format_subfields d"
proof -
  have "mset (map fst d') = mset (map fst d)" using assms(1) by (metis mset_map)
  then have "distinct (map fst d')" using assms(2) by (metis mset_eq_imp_distinct_iff)
  moreover have "set d' = set d" using assms(1) by (rule mset_eq_setD)
  ultimately have m: "map_of d' = map_of d" using assms(2) by (simp add: map_of_inject_set)
  let ?f = "\<lambda>(k, v). format_subfield k v"
  have te: "\<And>x e. ?f x = Inl e \<Longrightarrow> e = AttributeError" using format_subfield_error by auto
  have r: "case map_err ?f d of
           Inl e \<Rightarrow> map_err ?f d' = Inl AttributeError \<and> e = AttributeError
         | Inr ys \<Rightarrow> (\<exists>ys'. map_err ?f d' = Inr ys' \<and> mset ys' = mset ys)"
    by (rule map_err_perm [OF assms(1) te])
  have "and_then (map_err ?f d') (\<lambda>values. Inr (first @ concat (sort values)))
      = and_then (map_err ?f d) (\<lambda>values. Inr (first @ concat (sort values)))" for first
  proof (cases "map_err ?f d")
    case (Inl e)
    then show ?thesis using r by simp
  next
    case (Inr ys)
    then obtain ys' where ys': "map_err ?f d' = Inr ys'" "mset ys' = mset ys" using r by auto
    have "sort ys' = sort ys" using ys'(2) by (rule sort_mset_eq)
    then show ?thesis using Inr ys'(1) by simp
  qed
  then show ?thesis unfolding format_subfields_def m by simp
qed

lemma format_subfield_str: "format_subfield k (PStr s) = Inr (subfield_token (k, PStr s))"
  by (simp add: format_subfield_def subfield_codes_def)

lemma format_subfields_str:
  assumes str: "list_all is_str (map snd d)"
  shows "format_subfields d
     = Inr (format_text (case map_of d (u ''_'') of Some (PStr s) \<Rightarrow> s | _ \<Rightarrow> [])
            @ concat (sort (map subfield_token d)))"
proof -
  have "\<forall>x \<in> set d. (\<lambda>(k, v). format_subfield k v) x = Inr (subfield_token x)"
  proof
    fix x assume "x \<in> set d"
    then have "is_str (snd x)" using str by (simp add: list_all_iff)
    then obtain k s where "x = (k, PStr s)" by (cases x, cases "snd x") auto
    then show "(\<lambda>(k, v). format_subfield k v) x = Inr (subfield_token x)"
      using format_subfield_str by simp
  qed
  then have v: "map_err (\<lambda>(k, v). format_subfield k v) d = Inr (map subfield_token d)"
    by (rule map_err_all_Inr)
  have "format_value (case map_of d (u ''_'') of None \<Rightarrow> PStr []
              | Some v \<Rightarrow> if truthy v then v else PStr [])
      = Inr (format_text (case map_of d (u ''_'') of Some (PStr s) \<Rightarrow> s | _ \<Rightarrow> []))"
  proof (cases "map_of d (u ''_'')")
    case None
    then show ?thesis by simp
  next
    case (Some v)
    then have "(u ''_'', v) \<in> set d" by (rule map_of_SomeD)
    then have "is_str v" using str by (auto simp: list_all_iff)
    then obtain s where "v = PStr s" by (cases v) auto
    then show ?thesis using Some by simp
  qed
  then show ?thesis unfolding format_subfields_def by (simp add: v)
qed

text \<open>
  Claim C5. For a subfield set with string values the output is the rendered main value
  followed by the rendered tokens \<open>^code+value\<close> (empty for an entry that is left out)
  in ascending lexicographic order of the whole tokens: the emitted list is sorted and
  is a permutation of the rendered tokens. The output does not depend on the order in
  which the dict holds its entries.
\<close>

theorem subfields_sorted_by_token:
  "(list_all is_str (map snd d) \<longrightarrow>
      (\<exists>toks. format_subfields d
                 = Inr (format_text (case map_of d (u ''_'') of Some (PStr s) \<Rightarrow> s | _ \<Rightarrow> [])
                        @ concat toks)
             \<and> sorted toks \<and> mset toks = mset (map subfield_token d))) \<and>
   (mset d' = mset d \<and> distinct (map fst d) \<longrightarrow> format_subfields d' = format_subfields d)"
proof (intro conjI impI)
  assume "mset d' = mset d \<and> distinct (map fst d)"
  then show "format_subfields d' = format_subfields d" using format_subfields_perm by blast
next
  assume str: "list_all is_str (map snd d)"
  show "\<exists>toks. format_subfields d
                 = Inr (format_text (case map_of d (u ''_'') of Some (PStr s) \<Rightarrow> s | _ \<Rightarrow> [])
                        @ concat toks)
             \<and> sorted toks \<and> mset toks = mset (map subfield_token d)"
    using format_subfields_str [OF str]
    by (intro exI [of _ "sort (map subfield_token d)"]) simp
qed

theorem subfields_sorted_by_token_witness:
  "list_all is_str (map snd [(u ''b'', PStr (u ''2'')), (u ''a'', PStr (u ''1''))]) \<and>
   mset [(u ''a'', PStr (u ''9'')), (u ''b'', PStr (u ''1''))]
     = mset [(u ''b'', PStr (u ''1'')), (u ''a'', PStr (u ''9''))] \<and>
   distinct (map fst [(u ''b'', PStr (u ''1'')), (u ''a'', PStr (u ''9''))]) \<and>
   format_subfields [(u ''b'', PStr (u ''2'')), (u ''a'', PStr (u ''1''))] = Inr (u ''^a1^b2'') \<and>
   format_subfields [(u ''a'', PStr (u ''9'')), (u ''b'', PStr (u ''1''))] = Inr (u ''^a9^b1'') \<and>
   format_subfields [(u ''b'', PStr (u ''1'')), (u ''a'', PStr (u ''9''))] = Inr (u ''^a9^b1'') \<and>
   (\<exists>toks. format_subfields [(u ''b'', PStr (u ''2'')), (u ''a'', PStr (u ''1''))] = Inr (concat toks)
      \<and> sorted toks
      \<and> mset toks = mset (map subfield_token [(u ''b'', PStr (u ''2'')), (u ''a'', PStr (u ''1''))]))"
proof -
  have a: "list_all is_str (map snd [(u ''b'', PStr (u ''2'')), (u ''a'', PStr (u ''1''))])"
    by simp
  have b: "mset [(u ''a'', PStr (u ''9'')), (u ''b'', PStr (u ''1''))]
     = mset [(u ''b'', PStr (u ''1'')), (u ''a'', PStr (u ''9''))]"
    by (simp add: add.commute)
  have c: "distinct (map fst [(u ''b'', PStr (u ''1'')), (u ''a'', PStr (u ''9''))])"
    by (simp add: u_def)
  have e1: "format_subfields [(u ''b'', PStr (u ''2'')), (u ''a'', PStr (u ''1''))] = Inr (u ''^a1^b2'')"
    by (simp add: eval_simps)
  have e2: "format_subfields [(u ''b'', PStr (u ''1'')), (u ''a'', PStr (u ''9''))] = Inr (u ''^a9^b1'')"
    by (simp add: eval_simps)
  have m: "format_text (case map_of [(u ''b'', PStr (u ''2'')), (u ''a'', PStr (u ''1''))] (u ''_'') of
       Some (PStr s) \<Rightarrow> s | _ \<Rightarrow> []) = []"
    by (simp add: eval_simps)
  have t1: "\<exists>toks. format_subfields [(u ''b'', PStr (u ''2'')), (u ''a'', PStr (u ''1''))] = Inr (concat toks)
      \<and> sorted toks
      \<and> mset toks = mset (map subfield_token [(u ''b'', PStr (u ''2'')), (u ''a'', PStr (u ''1''))])"
    using subfields_sorted_by_token [where d = "[(u ''b'', PStr (u ''2'')), (u ''a'', PStr (u ''1''))]"] a
    unfolding m by simp
  have t2: "format_subfields [(u ''a'', PStr (u ''9'')), (u ''b'', PStr (u ''1''))]
     = format_subfields [(u ''b'', PStr (u ''1'')), (u ''a'', PStr (u ''9''))]"
    using subfields_sorted_by_token [where d' = "[(u ''a'', PStr (u ''9'')), (u ''b'', PStr (u ''1''))]"
        and d = "[(u ''b'', PStr (u ''1'')), (u ''a'', PStr (u ''9''))]"] b c by blast
  show ?thesis using a b c e1 e2 t1 t2 by simp
qed

theorem invalid_subfields_omitted_witness:
  "dropped_entry (u ''A'', PStr (u ''x'')) \<and>
   format_subfield (u ''A'') (PStr (u ''x'')) = Inr [] \<and>
   distinct (map fst [(u ''_'', PStr (u ''m'')), (u ''A'', PStr (u ''x'')), (u ''0'', PStr (u ''y'')),
       (u ''b'', PStr []), (u ''a'', PStr (u ''1''))]) \<and>
   format_subfields [(u ''_'', PStr (u ''m'')), (u ''A'', PStr (u ''x'')), (u ''0'', PStr (u ''y'')),
       (u ''b'', PStr []), (u ''a'', PStr (u ''1''))]
     = format_subfields [(u ''_'', PStr (u ''m'')), (u ''a'', PStr (u ''1''))] \<and>
   format_subfields [(u ''_'', PStr (u ''m'')), (u ''a'', PStr (u ''1''))] = Inr (u ''m^a1'')"
proof -
  have d: "dropped_entry (u ''A'', PStr (u ''x''))" by (simp add: u_def subfield_codes_def)
  have f: "filter (\<lambda>e. \<not> dropped_entry e)
      [(u ''_'', PStr (u ''m'')), (u ''A'', PStr (u ''x'')), (u ''0'', PStr (u ''y'')),
       (u ''b'', PStr []), (u ''a'', PStr (u ''1''))]
     = [(u ''_'', PStr (u ''m'')), (u ''a'', PStr (u ''1''))]"
    by (simp add: u_def subfield_codes_def)
  have k: "distinct (map fst [(u ''_'', PStr (u ''m'')), (u ''A'', PStr (u ''x'')), (u ''0'', PStr (u ''y'')),
       (u ''b'', PStr []), (u ''a'', PStr (u ''1''))])" by (simp add: u_def)
  have e: "format_subfields [(u ''_'', PStr (u ''m'')), (u ''a'', PStr (u ''1''))] = Inr (u ''m^a1'')"
    by (simp add: eval_simps)
  show ?thesis
    using invalid_subfields_omitted [of "u ''A''" "PStr (u ''x'')"
        "[(u ''_'', PStr (u ''m'')), (u ''A'', PStr (u ''x'')), (u ''0'', PStr (u ''y'')),
       (u ''b'', PStr []), (u ''a'', PStr (u ''1''))]"] d k e
    unfolding f by blast
qed

section \<open>The scalar collapse of the parser\<close>

lemma record_fields_inv:
  assumes "record_fields data flds = Inr data'" "distinct (map fst data)"
    "\<forall>l \<in> ran (map_of data). l \<noteq> []"
  shows "distinct (map fst data') \<and> (\<forall>l \<in> ran (map_of data'). l \<noteq> []) \<and>
         (\<forall>tag. map Inr (olist data' tag) = map Inr (olist data tag) @ tag_occurrences tag flds)"
  using assms
proof (induction flds arbitrary: data)
  case Nil
  then show ?case by (simp add: tag_occurrences_def)
next
  case (Cons f flds)
  from Cons.prems(1) obtain n where n: "int_of_str (take 3 f) = Some n"
    by (cases "int_of_str (take 3 f)") auto
  from Cons.prems(1) n obtain fd where fd: "get_field_data (strip (drop 4 f)) = Inr fd"
    by (cases "get_field_data (strip (drop 4 f))") auto
  let ?t = "str_int n"
  let ?data1 = "AList.update ?t (olist data ?t @ [fd]) data"
  have rec: "record_fields ?data1 flds = Inr data'"
    using Cons.prems(1) n fd by (simp add: olist_def Let_def)
  have d1: "distinct (map fst ?data1)" using Cons.prems(2) by (rule distinct_update)
  have m1: "map_of ?data1 = (map_of data)(?t \<mapsto> olist data ?t @ [fd])"
    by (rule update_conv')
  have ne1: "\<forall>l \<in> ran (map_of ?data1). l \<noteq> []"
    unfolding m1 using Cons.prems(3) by (auto simp: ran_def split: if_splits)
  have ih: "distinct (map fst data') \<and> (\<forall>l \<in> ran (map_of data'). l \<noteq> []) \<and>
         (\<forall>tag. map Inr (olist data' tag) = map Inr (olist ?data1 tag) @ tag_occurrences tag flds)"
    using Cons.IH [OF rec d1 ne1] .
  have "map Inr (olist ?data1 tag) @ tag_occurrences tag flds
      = map Inr (olist data tag) @ tag_occurrences tag (f # flds)" for tag
  proof (cases "tag = ?t")
    case True
    then show ?thesis by (simp add: olist_def update_conv' tag_occurrences_def n fd)
  next
    case False
    then show ?thesis by (auto simp: olist_def update_conv' tag_occurrences_def n)
  qed
  then show ?case using ih by simp
qed

lemma get_field_data_not_list:
  assumes "get_field_data c = Inr v"
  shows "\<not> is_list v"
proof -
  let ?subfields = "map (replace PRESERVECIRC (u ''^'')) (split_on (u ''^'') c)"
  show ?thesis
  proof (cases "length ?subfields = 1")
    case True
    then show ?thesis using assms by (auto simp: get_field_data_def Let_def)
  next
    case False
    then obtain d where "v = PDict d"
      using assms
      by (cases "add_subfields (if hd ?subfields \<noteq> [] then [(u ''_'', PStr (hd ?subfields))] else [])
                   (tl ?subfields)")
         (auto simp: get_field_data_def Let_def)
    then show ?thesis by simp
  qed
qed

text \<open>
  Claim C7. In a parsed record the keys are distinct, and a tag is a key exactly when
  some field segment of the stream carries it. A tag with one occurrence is stored as
  that occurrence itself, which is a string or a subfield set and never a list; a tag
  with two or more occurrences is stored as the list of them, in stream order.
\<close>

theorem single_occurrence_is_scalar:
  assumes "get_record_data record = Inr (PDict d)"
  shows "distinct (map fst d) \<and>
     (\<forall>tag. case map_of d tag of
         None \<Rightarrow> tag_occurrences tag (tl (split_on (10 # u ''!v'') record)) = []
       | Some v \<Rightarrow>
           (\<exists>occs. tag_occurrences tag (tl (split_on (10 # u ''!v'') record)) = map Inr occs \<and>
              ((length occs = 1 \<and> v = hd occs \<and> \<not> is_list v) \<or>
               (2 \<le> length occs \<and> v = PList occs))))"
proof -
  let ?flds = "tl (split_on (10 # u ''!v'') record)"
  let ?collapse = "\<lambda>tag_content. if length tag_content = 1 then hd tag_content else PList tag_content"
  obtain data where data: "record_fields [] ?flds = Inr data"
    and d: "d = map (\<lambda>(tag, tag_content). (tag, ?collapse tag_content)) data"
    using assms by (cases "record_fields [] ?flds") (auto simp: get_record_data_def)
  have inv: "distinct (map fst data)" "\<forall>l \<in> ran (map_of data). l \<noteq> []"
    "\<forall>tag. map Inr (olist data tag) = tag_occurrences tag ?flds"
    using record_fields_inv [OF data] by (simp_all add: olist_def)
  have fst: "map fst d = map fst data" unfolding d by (induction data) auto
  have m: "map_of d tag = map_option ?collapse (map_of data tag)" for tag
    unfolding d by (induction data) auto
  have "case map_of d tag of
         None \<Rightarrow> tag_occurrences tag ?flds = []
       | Some v \<Rightarrow>
           (\<exists>occs. tag_occurrences tag ?flds = map Inr occs \<and>
              ((length occs = 1 \<and> v = hd occs \<and> \<not> is_list v) \<or>
               (2 \<le> length occs \<and> v = PList occs)))" for tag
  proof (cases "map_of data tag")
    case None
    then have "olist data tag = []" by (simp add: olist_def)
    then have "tag_occurrences tag ?flds = []" using inv(3) [rule_format, of tag] by simp
    then show ?thesis using None m by simp
  next
    case (Some occs)
    then have ne: "occs \<noteq> []" using inv(2) by (auto simp: ran_def)
    have o: "tag_occurrences tag ?flds = map Inr occs"
      using inv(3) [rule_format, of tag] Some by (simp add: olist_def)
    show ?thesis
    proof (cases "length occs = 1")
      case True
      then obtain x where x: "occs = [x]" by (cases occs) auto
      then have "get_field_data (strip (drop 4 f)) = Inr x" if
        "filter (\<lambda>f. map_option str_int (int_of_str (take 3 f)) = Some tag) ?flds = [f]" for f
        using o that by (simp add: tag_occurrences_def)
      moreover obtain f where
        "filter (\<lambda>f. map_option str_int (int_of_str (take 3 f)) = Some tag) ?flds = [f]"
        using o x by (auto simp: tag_occurrences_def map_eq_Cons_conv)
      ultimately have "\<not> is_list x" using get_field_data_not_list by blast
      then have "tag_occurrences tag ?flds = map Inr occs \<and>
          ((length occs = 1 \<and> ?collapse occs = hd occs \<and> \<not> is_list (?collapse occs)) \<or>
           (2 \<le> length occs \<and> ?collapse occs = PList occs))"
        using o x by simp
      then show ?thesis unfolding m Some by (auto simp del: One_nat_def)
    next
      case False
      then have "2 \<le> length occs" using ne by (cases occs; cases "tl occs") auto
      then have "tag_occurrences tag ?flds = map Inr occs \<and>
          ((length occs = 1 \<and> ?collapse occs = hd occs \<and> \<not> is_list (?collapse occs)) \<or>
           (2 \<le> length occs \<and> ?collapse occs = PList occs))"
        using o False by simp
      then show ?thesis unfolding m Some by (auto simp del: One_nat_def)
    qed
  qed
  then show ?thesis using inv(1) fst by simp
qed

lemmas parse_eval_simps = get_record_data_def get_field_data_def int_of_str_def str_int_def
  digits.simps decimal_def decimal_zeros_def int_space_def Let_def

lemma parse_example:
  "get_record_data (u ''000002'' @ 10 # u ''!v100!Author A'' @ 10 # u ''!v100!Author B'' @ 10 #
      u ''!v245!T^ax'' @ [10])
   = Inr (PDict [(u ''100'', PList [PStr (u ''Author A''), PStr (u ''Author B'')]),
                 (u ''245'', PDict [(u ''_'', PStr (u ''T'')), (u ''a'', PStr (u ''x''))])])"
  by (simp add: eval_simps parse_eval_simps)


lemma occurrences_example:
  "tag_occurrences (u ''245'') (tl (split_on (10 # u ''!v'')
      (u ''000002'' @ 10 # u ''!v100!Author A'' @ 10 # u ''!v100!Author B'' @ 10 #
      u ''!v245!T^ax'' @ [10])))
   = map Inr [PDict [(u ''_'', PStr (u ''T'')), (u ''a'', PStr (u ''x''))]]"
  by (simp add: tag_occurrences_def eval_simps parse_eval_simps)

theorem single_occurrence_is_scalar_witness:
  "get_record_data (u ''000002'' @ 10 # u ''!v100!Author A'' @ 10 # u ''!v100!Author B'' @ 10 #
      u ''!v245!T^ax'' @ [10])
   = Inr (PDict [(u ''100'', PList [PStr (u ''Author A''), PStr (u ''Author B'')]),
                 (u ''245'', PDict [(u ''_'', PStr (u ''T'')), (u ''a'', PStr (u ''x''))])]) \<and>
   distinct (map fst [(u ''100'', PList [PStr (u ''Author A''), PStr (u ''Author B'')]),
                 (u ''245'', PDict [(u ''_'', PStr (u ''T'')), (u ''a'', PStr (u ''x''))])]) \<and>
   tag_occurrences (u ''245'') (tl (split_on (10 # u ''!v'')
      (u ''000002'' @ 10 # u ''!v100!Author A'' @ 10 # u ''!v100!Author B'' @ 10 #
      u ''!v245!T^ax'' @ [10])))
   = map Inr [PDict [(u ''_'', PStr (u ''T'')), (u ''a'', PStr (u ''x''))]]"
  using single_occurrence_is_scalar [OF parse_example] parse_example occurrences_example by blast

section \<open>Range errors\<close>

lemma map_err_some_Inl:
  assumes "x \<in> set xs" "f x = Inl e" "\<And>y e'. y \<in> set xs \<Longrightarrow> f y = Inl e' \<Longrightarrow> e' = c"
  shows "map_err f xs = Inl c"
proof -
  obtain e' where e': "map_err f xs = Inl e'" using map_err_Inl_I [of x xs f e] assms(1,2) by blast
  then obtain y where "y \<in> set xs" "f y = Inl e'" using map_err_Inl_D [of f xs e'] by blast
  then have "e' = c" by (rule assms(3))
  then show ?thesis using e' by simp
qed

lemma map_err_all_Inr_ex:
  "\<forall>x \<in> set xs. \<exists>y. f x = Inr y \<Longrightarrow> \<exists>ys. map_err f xs = Inr ys"
  by (induction xs) auto

lemma valid_tag_iff:
  "valid_tag tag \<longleftrightarrow> (\<exists>n. int_of_str tag = Some n \<and> 0 < n \<and> n \<le> 999)"
  by (auto simp: valid_tag_def split: option.splits)

lemma tag_content_result:
  "tag_content tag s = (if valid_tag tag then
       Inr (if s = [] then [] else u ''!v'' @ zfill 3 tag @ u ''!'' @ s @ [10])
     else Inl ValueError)"
  by (auto simp: tag_content_def valid_tag_def split: option.splits)

lemma tag_occ_wt:
  assumes "wt_occ x"
  shows "if truthy x \<and> \<not> valid_tag tag then tag_occ tag x = Inl ValueError
         else \<exists>s. tag_occ tag x = Inr s"
proof (cases "truthy x")
  case False
  then show ?thesis by (simp add: tag_occ_def)
next
  case True
  obtain d where d: "(case x of PStr s \<Rightarrow> Inr [(u ''_'', PStr s)] | PDict d \<Rightarrow> Inr d | _ \<Rightarrow> Inl TypeError)
      = Inr d" "list_all is_str (map snd d)"
    using assms by (cases x) auto
  obtain s where s: "format_subfields d = Inr s" using format_subfields_str [OF d(2)] by blast
  have "tag_occ tag x = tag_content tag s"
    using True by (simp add: tag_occ_def d(1) s)
  then show ?thesis using True by (simp add: tag_content_result)
qed

lemma tag_data_wt:
  assumes "wt_field v"
  shows "if \<not> valid_tag tag \<and> has_content v then tag_data tag v = Inl ValueError
         else \<exists>items. tag_data tag v = Inr items"
proof (cases "truthy v")
  case False
  then have "\<not> has_content v" by (cases v) (auto simp: list_ex_iff)
  then show ?thesis using False by (simp add: tag_data_def)
next
  case True
  let ?occs = "case v of PList xs \<Rightarrow> xs | _ \<Rightarrow> [v]"
  have td: "tag_data tag v = map_err (tag_occ tag) ?occs" using True by (simp add: tag_data_def)
  have wt: "\<forall>x \<in> set ?occs. wt_occ x" using assms by (cases v) (auto simp: list_all_iff)
  have hc: "has_content v \<longleftrightarrow> (\<exists>x \<in> set ?occs. truthy x)"
    using True by (cases v) (auto simp: list_ex_iff)
  show ?thesis
  proof (cases "\<not> valid_tag tag \<and> has_content v")
    case True
    then obtain x where x: "x \<in> set ?occs" "truthy x" using hc by blast
    have "tag_occ tag x = Inl ValueError" using tag_occ_wt [of x tag] wt x True by simp
    moreover have "\<And>y e'. y \<in> set ?occs \<Longrightarrow> tag_occ tag y = Inl e' \<Longrightarrow> e' = ValueError"
      using tag_occ_wt wt by (metis Inl_Inr_False sum.inject(1))
    ultimately have "map_err (tag_occ tag) ?occs = Inl ValueError"
      using map_err_some_Inl [of x ?occs "tag_occ tag" ValueError ValueError] x(1) by blast
    then show ?thesis using True td by simp
  next
    case False
    have "\<forall>x \<in> set ?occs. \<exists>y. tag_occ tag x = Inr y"
    proof
      fix x assume x: "x \<in> set ?occs"
      then have "\<not> (truthy x \<and> \<not> valid_tag tag)" using False hc by blast
      then show "\<exists>y. tag_occ tag x = Inr y" using tag_occ_wt [of x tag] wt x by auto
    qed
    then have "\<exists>ys. map_err (tag_occ tag) ?occs = Inr ys" by (rule map_err_all_Inr_ex)
    then show ?thesis using False td by auto
  qed
qed

lemma format_record_wt:
  assumes "wt_record r"
  shows "if bad_tag_record r then format_record self r = Inl ValueError
         else \<exists>s. format_record self r = Inr s"
proof -
  obtain d where r: "r = PDict d" using assms by (cases r) auto
  show ?thesis
  proof (cases "d = []")
    case True
    then show ?thesis using r by (simp add: format_record_def)
  next
    case False
    have dist: "distinct (map fst d)"
      and wt: "\<forall>(k, v) \<in> set d. canonical_key k \<and> wt_field v"
      using assms r by (auto simp: list_all_iff)
    let ?parse = "\<lambda>s. case int_of_str s of None \<Rightarrow> Inl ValueError | Some i \<Rightarrow> Inr i"
    let ?tag_of = "\<lambda>k. the (int_of_str k)"
    let ?g = "\<lambda>tag_i. let tag = str_int tag_i
               in case map_of d tag of None \<Rightarrow> Inl KeyError | Some data \<Rightarrow> tag_data tag data"
    have "\<forall>k \<in> set (map fst d). ?parse k = Inr (?tag_of k)"
      using wt by (auto simp: canonical_key_def split: option.splits)
    then have tags: "map_err ?parse (map fst d) = Inr (map ?tag_of (map fst d))"
      by (rule map_err_all_Inr)
    let ?tags = "sort (map ?tag_of (map fst d))"
    have g: "\<exists>k v. (k, v) \<in> set d \<and> ?g tag_i = tag_data k v" if "tag_i \<in> set ?tags" for tag_i
    proof -
      from that obtain k v where kv: "(k, v) \<in> set d" "tag_i = ?tag_of k" by auto
      then have "str_int tag_i = k"
        using wt by (auto simp: canonical_key_def split: option.splits)
      moreover have "map_of d k = Some v" using kv(1) dist by simp
      ultimately show ?thesis using kv(1) by (auto simp: Let_def)
    qed
    have fr: "format_record self r = and_then (map_err ?g ?tags)
        (\<lambda>items. let result = concat (concat items)
                  in Inr (case content_formatter self of None \<Rightarrow> result | Some f \<Rightarrow> f result))"
      using False r by (simp add: format_record_def tags)
    show ?thesis
    proof (cases "bad_tag_record r")
      case True
      then obtain k v where kv: "(k, v) \<in> set d" "\<not> valid_tag k" "has_content v"
        using r by (auto simp: list_ex_iff)
      have ck: "canonical_key k" "wt_field v" using wt kv(1) by auto
      then have sk: "str_int (?tag_of k) = k"
        by (auto simp: canonical_key_def split: option.splits)
      have mk: "map_of d k = Some v" using kv(1) dist by simp
      have "?g (?tag_of k) = tag_data k v" by (simp add: Let_def sk mk)
      then have e: "?g (?tag_of k) = Inl ValueError"
        using tag_data_wt [OF ck(2), of k] kv(2,3) by simp
      have m: "?tag_of k \<in> set ?tags" using kv(1) by force
      have "\<And>y e'. y \<in> set ?tags \<Longrightarrow> ?g y = Inl e' \<Longrightarrow> e' = ValueError"
      proof -
        fix y e' assume y: "y \<in> set ?tags" and ge: "?g y = Inl e'"
        obtain k' v' where kv': "(k', v') \<in> set d" "?g y = tag_data k' v'" using g [OF y] by blast
        have "wt_field v'" using wt kv'(1) by auto
        then show "e' = ValueError"
          using tag_data_wt [of v' k'] ge kv'(2) by (auto split: if_splits)
      qed
      then have "map_err ?g ?tags = Inl ValueError"
        using map_err_some_Inl [of "?tag_of k" ?tags ?g ValueError ValueError] m e by blast
      then show ?thesis using True fr by simp
    next
      case False
      have "\<forall>tag_i \<in> set ?tags. \<exists>y. ?g tag_i = Inr y"
      proof
        fix tag_i assume t: "tag_i \<in> set ?tags"
        obtain k v where kv: "(k, v) \<in> set d" "?g tag_i = tag_data k v" using g [OF t] by blast
        have "wt_field v" using wt kv(1) by auto
        moreover have "\<not> (\<not> valid_tag k \<and> has_content v)"
          using False r kv(1) by (auto simp: list_ex_iff)
        ultimately show "\<exists>y. ?g tag_i = Inr y" using tag_data_wt [of v k] kv(2) by auto
      qed
      then obtain items where "map_err ?g ?tags = Inr items"
        using map_err_all_Inr_ex [of ?tags ?g] by blast
      then show ?thesis using False fr by (simp add: Let_def)
    qed
  qed
qed

lemma format_id_result:
  "format_id i = (if 1 \<le> i \<and> i \<le> 999999
      then Inr (u ''!ID '' @ zfill 6 (str_int i) @ [10]) else Inl IndexError)"
  by (auto simp: format_id_def MAX_DIGITS_QTD_def)

lemma format_file_loop_wt:
  assumes "list_all wt_record rs" "0 \<le> i" "i \<le> 999999"
  shows "if list_ex bad_tag_record (take (nat (999999 - i)) rs)
         then format_file_loop self i rs = Inl ValueError
         else if nat (999999 - i) < length rs then format_file_loop self i rs = Inl IndexError
         else \<exists>s. format_file_loop self i rs = Inr s"
  using assms
proof (induction rs arbitrary: i)
  case Nil
  then show ?case by simp
next
  case (Cons r rs)
  show ?case
  proof (cases "i = 999999")
    case True
    then show ?thesis by (simp add: format_id_result)
  next
    case False
    then have i: "0 \<le> i + 1" "i + 1 \<le> 999999" using Cons.prems by auto
    obtain k where k: "nat (999999 - i) = Suc k" "nat (999999 - (i + 1)) = k"
      using False Cons.prems by (cases "nat (999999 - i)") auto
    obtain a where a: "format_id (i + 1) = Inr a"
      using i Cons.prems(2) by (simp add: format_id_result)
    have wr: "wt_record r" and wrs: "list_all wt_record rs" using Cons.prems(1) by auto
    show ?thesis
    proof (cases "bad_tag_record r")
      case True
      then have "format_record self r = Inl ValueError" using format_record_wt [OF wr] by simp
      then show ?thesis using True a k by simp
    next
      case False
      then obtain b where b: "format_record self r = Inr b" using format_record_wt [OF wr] by auto
      have ih: "if list_ex bad_tag_record (take k rs)
         then format_file_loop self (i + 1) rs = Inl ValueError
         else if k < length rs then format_file_loop self (i + 1) rs = Inl IndexError
         else \<exists>s. format_file_loop self (i + 1) rs = Inr s"
        using Cons.IH [OF wrs i] k(2) by simp
      show ?thesis using False a b k(1) ih by (auto split: if_splits)
    qed
  qed
qed

lemma mkdir_keeps:
  "files (fst (mkdir fs name)) = files fs \<and> printed (fst (mkdir fs name)) = printed fs"
  by (simp add: mkdir_def Let_def)

lemma makedirs_keeps:
  "files (fst (makedirs fs name)) = files fs \<and> printed (fst (makedirs fs name)) = printed fs"
proof (induction fs name rule: makedirs.induct)
  case (1 fs name)
  let ?head = "fst (makedirs_split name)" and ?tail = "snd (makedirs_split name)"
  show ?case
  proof (cases "?head \<noteq> [] \<and> ?tail \<noteq> [] \<and> \<not> path_exists fs ?head")
    case True
    obtain fs1 exc where m: "makedirs fs ?head = (fs1, exc)" by (cases "makedirs fs ?head")
    have ih: "files fs1 = files fs \<and> printed fs1 = printed fs"
      using "1.IH" [OF refl refl True] m by simp
    show ?thesis
      using True m ih mkdir_keeps [of fs1 name]
      by (subst (1 2) makedirs.simps) (simp add: Let_def)
  next
    case False
    then show ?thesis
      using mkdir_keeps [of fs name] by (subst (1 2) makedirs.simps) (auto simp: Let_def)
  qed
qed

text \<open>
  Claim C4, as the code has it. For records typed as in the data model, serialization
  fails with \<open>ValueError\<close> when one of the first 999999 records holds a field with
  content (a non-empty occurrence) under a tag outside 1 to 999; otherwise it fails with
  \<open>IndexError\<close> when there are more than 999999 records; otherwise it succeeds. When
  the formatter raises, \<open>write\<close> ends with an exception and has changed no file and
  printed nothing, the file is never opened: the exception is the formatter's when the
  directory of the file is there, and otherwise the formatter's or the one that making
  the directory raised (a directory that was made stays).
\<close>

theorem range_errors_abort_write:
  assumes "list_all wt_record records"
  shows "(list_ex bad_tag_record (take 999999 records) \<longrightarrow>
            format_file self records = Inl ValueError) \<and>
         (\<not> list_ex bad_tag_record (take 999999 records) \<and> 999999 < length records \<longrightarrow>
            format_file self records = Inl IndexError) \<and>
         (\<not> list_ex bad_tag_record records \<and> length records \<le> 999999 \<longrightarrow>
            (\<exists>s. format_file self records = Inr s)) \<and>
         (\<forall>e. format_file self records = Inl e \<longrightarrow>
            (\<exists>fs1 e1. IDFile_write html5 self fs filename records = (fs1, Some e1) \<and>
               files fs1 = files fs \<and> printed fs1 = printed fs \<and>
               (if isdir fs (dirname filename) then fs1 = fs \<and> e1 = e
                else e1 = e \<or> makedirs fs (dirname filename) = (fs1, Some e1))))"
proof -
  have l: "if list_ex bad_tag_record (take 999999 records)
         then format_file_loop self 0 records = Inl ValueError
         else if 999999 < length records then format_file_loop self 0 records = Inl IndexError
         else \<exists>s. format_file_loop self 0 records = Inr s"
    using format_file_loop_wt [OF assms, of 0 self] by simp
  have 1: "list_ex bad_tag_record (take 999999 records) \<longrightarrow>
            format_file self records = Inl ValueError"
    using l by (simp add: format_file_def)
  have 2: "\<not> list_ex bad_tag_record (take 999999 records) \<and> 999999 < length records \<longrightarrow>
            format_file self records = Inl IndexError"
    using l by (simp add: format_file_def)
  have 3: "\<not> list_ex bad_tag_record records \<and> length records \<le> 999999 \<longrightarrow>
            (\<exists>s. format_file self records = Inr s)"
    using l by (auto simp: format_file_def)
  have 4: "\<forall>e. format_file self records = Inl e \<longrightarrow>
            (\<exists>fs1 e1. IDFile_write html5 self fs filename records = (fs1, Some e1) \<and>
               files fs1 = files fs \<and> printed fs1 = printed fs \<and>
               (if isdir fs (dirname filename) then fs1 = fs \<and> e1 = e
                else e1 = e \<or> makedirs fs (dirname filename) = (fs1, Some e1)))"
  proof (intro allI impI)
    fix e assume e: "format_file self records = Inl e"
    then have w: "write_content html5 self records = Inl e" by (simp add: write_content_def)
    show "\<exists>fs1 e1. IDFile_write html5 self fs filename records = (fs1, Some e1) \<and>
               files fs1 = files fs \<and> printed fs1 = printed fs \<and>
               (if isdir fs (dirname filename) then fs1 = fs \<and> e1 = e
                else e1 = e \<or> makedirs fs (dirname filename) = (fs1, Some e1))"
    proof (cases "isdir fs (dirname filename)")
      case True
      then show ?thesis by (simp add: IDFile_write_def w)
    next
      case False
      obtain fs1 exc where m: "makedirs fs (dirname filename) = (fs1, exc)"
        by (cases "makedirs fs (dirname filename)")
      have k: "files fs1 = files fs" "printed fs1 = printed fs"
        using makedirs_keeps [of fs "dirname filename"] m by simp_all
      show ?thesis using False m k by (cases exc) (simp_all add: IDFile_write_def w)
    qed
  qed
  show ?thesis using 1 2 3 4 by blast
qed

lemmas record_eval_simps = valid_tag_def canonical_key_def int_of_str_def str_int_def
  digits.simps decimal_def decimal_zeros_def int_space_def isspace_def u_def

theorem range_errors_abort_write_witness:
  "list_all wt_record (replicate 1000000 (PDict [])) \<and>
   format_file IDFile_default (replicate 1000000 (PDict [])) = Inl IndexError \<and>
   IDFile_write html5_sample IDFile_default out_fs (u ''out/f.id'') (replicate 1000000 (PDict []))
     = (out_fs, Some IndexError) \<and>
   list_all wt_record [PDict [(u ''1000'', PStr (u ''x''))]] \<and>
   format_file IDFile_default [PDict [(u ''1000'', PStr (u ''x''))]] = Inl ValueError \<and>
   IDFile_write html5_sample IDFile_default out_fs (u ''out/f.id'') [PDict [(u ''1000'', PStr (u ''x''))]]
     = (out_fs, Some ValueError) \<and>
   IDFile_write html5_sample IDFile_default empty_fs (u ''out/f.id'') [PDict [(u ''1000'', PStr (u ''x''))]]
     = (empty_fs\<lparr>isdir := (isdir empty_fs)(u ''out'' := True)\<rparr>, Some ValueError) \<and>
   IDFile_write html5_sample IDFile_default empty_fs (u ''f.id'') [PDict [(u ''1000'', PStr (u ''x''))]]
     = (empty_fs, Some FileNotFoundError) \<and>
   list_all wt_record [PDict [(u ''0'', PList [PStr [], PStr (u ''x'')])]] \<and>
   format_file IDFile_default [PDict [(u ''0'', PList [PStr [], PStr (u ''x'')])]] = Inl ValueError \<and>
   list_all wt_record [PDict [(u ''245'', PStr (u ''x''))]] \<and>
   (\<exists>s. format_file IDFile_default [PDict [(u ''245'', PStr (u ''x''))]] = Inr s)"
proof -
  let ?r1 = "replicate 1000000 (PDict [])"
  let ?r2 = "[PDict [(u ''1000'', PStr (u ''x''))]]"
  let ?r3 = "[PDict [(u ''0'', PList [PStr [], PStr (u ''x'')])]]"
  let ?r4 = "[PDict [(u ''245'', PStr (u ''x''))]]"
  have w1: "list_all wt_record ?r1"
    by (simp add: list_all_iff)
  have b1: "\<not> list_ex bad_tag_record (take 999999 ?r1) \<and> 999999 < length ?r1"
    by (simp add: list_ex_iff)
  have w2: "list_all wt_record ?r2"
    by (simp add: record_eval_simps)
  have b2: "list_ex bad_tag_record (take 999999 ?r2)"
    by (simp add: record_eval_simps)
  have w3: "list_all wt_record ?r3"
    by (simp add: record_eval_simps)
  have b3: "list_ex bad_tag_record (take 999999 ?r3)"
    by (simp add: record_eval_simps)
  have w4: "list_all wt_record ?r4"
    by (simp add: record_eval_simps)
  have b4: "\<not> list_ex bad_tag_record ?r4 \<and> length ?r4 \<le> 999999"
    by (simp add: record_eval_simps)
  have d: "dirname (u ''out/f.id'') = u ''out''" "dirname (u ''f.id'') = []"
    by (simp_all add: dirname_def path_split_def rstrip_sep_def u_def)
  have o: "isdir out_fs (dirname (u ''out/f.id''))"
    by (simp add: d out_fs_def)
  have t1: "format_file IDFile_default ?r1 = Inl IndexError"
    using range_errors_abort_write [OF w1, of IDFile_default html5_sample out_fs "u ''out/f.id''"]
      b1 by blast
  obtain fs1 e1 where x1:
    "IDFile_write html5_sample IDFile_default out_fs (u ''out/f.id'') ?r1 = (fs1, Some e1)"
    "if isdir out_fs (dirname (u ''out/f.id'')) then fs1 = out_fs \<and> e1 = IndexError
     else e1 = IndexError \<or> makedirs out_fs (dirname (u ''out/f.id'')) = (fs1, Some e1)"
    using range_errors_abort_write [OF w1, of IDFile_default html5_sample out_fs "u ''out/f.id''"]
      t1 by blast
  have i1: "IDFile_write html5_sample IDFile_default out_fs (u ''out/f.id'') ?r1
      = (out_fs, Some IndexError)"
    using x1 o by simp
  have t2: "format_file IDFile_default ?r2 = Inl ValueError"
    using range_errors_abort_write [OF w2, of IDFile_default html5_sample out_fs "u ''out/f.id''"]
      b2 by blast
  obtain fs2 e2 where x2:
    "IDFile_write html5_sample IDFile_default out_fs (u ''out/f.id'') ?r2 = (fs2, Some e2)"
    "if isdir out_fs (dirname (u ''out/f.id'')) then fs2 = out_fs \<and> e2 = ValueError
     else e2 = ValueError \<or> makedirs out_fs (dirname (u ''out/f.id'')) = (fs2, Some e2)"
    using range_errors_abort_write [OF w2, of IDFile_default html5_sample out_fs "u ''out/f.id''"]
      t2 by blast
  have i2: "IDFile_write html5_sample IDFile_default out_fs (u ''out/f.id'') ?r2
      = (out_fs, Some ValueError)"
    using x2 o by simp
  have w: "write_content html5_sample IDFile_default ?r2 = Inl ValueError"
    using t2 by (simp add: write_content_def)
  have sp: "makedirs_split (u ''out'') = ([], u ''out'')"
    by (simp add: makedirs_split_def path_split_def rstrip_sep_def u_def)
  have "mkdir empty_fs (u ''out'')
      = (empty_fs\<lparr>isdir := (isdir empty_fs)(u ''out'' := True)\<rparr>, None)"
    by (simp add: mkdir_def dirname_def path_split_def rstrip_sep_def path_exists_def
        empty_fs_def u_def)
  then have mk: "makedirs empty_fs (u ''out'')
      = (empty_fs\<lparr>isdir := (isdir empty_fs)(u ''out'' := True)\<rparr>, None)"
    by (subst makedirs.simps) (simp add: sp)
  have i3: "IDFile_write html5_sample IDFile_default empty_fs (u ''out/f.id'') ?r2
      = (empty_fs\<lparr>isdir := (isdir empty_fs)(u ''out'' := True)\<rparr>, Some ValueError)"
    using mk w by (simp add: IDFile_write_def d) (simp add: empty_fs_def)
  have sp0: "makedirs_split [] = ([], [])"
    by (simp add: makedirs_split_def path_split_def)
  have mk0: "makedirs empty_fs [] = (empty_fs, Some FileNotFoundError)"
    by (subst makedirs.simps) (simp add: sp0 mkdir_def)
  have i4: "IDFile_write html5_sample IDFile_default empty_fs (u ''f.id'') ?r2
      = (empty_fs, Some FileNotFoundError)"
    using mk0 by (simp add: IDFile_write_def d) (simp add: empty_fs_def)
  have t3: "format_file IDFile_default ?r3 = Inl ValueError"
    using range_errors_abort_write [OF w3, of IDFile_default html5_sample out_fs "u ''out/f.id''"]
      b3 by blast
  have t4: "\<exists>s. format_file IDFile_default ?r4 = Inr s"
    using range_errors_abort_write [OF w4, of IDFile_default html5_sample out_fs "u ''out/f.id''"]
      b4 by blast
  show ?thesis
    using w1 t1 i1 w2 t2 i2 i3 i4 w3 t3 w4 t4 by (intro conjI)
qed

text \<open>
  Claim C4 as stated fails: a record that contains the tag 1000 with an empty value is
  serialized without any exception.
\<close>

theorem out_of_range_tag_with_empty_value_succeeds:
  "\<not> valid_tag (u ''1000'') \<and>
   write_content html5_sample IDFile_default [PDict [(u ''1000'', PStr [])]]
     = Inr (u ''!ID 000001'' @ [10])"
proof -
  have "\<not> valid_tag (u ''1000'')" by (simp add: record_eval_simps)
  moreover have "all_empty (PStr [])" by simp
  then have "write_content html5_sample IDFile_default [PDict [(str_int 1000, PStr [])]]
     = Inr (u ''!ID 000001'' @ [10])"
    using write_content_only_id tag_data_all_empty
    by (simp add: format_record_def int_of_str_str_int IDFile_default_def format_file_def id_line_1
        tag_data_def)
  moreover have "str_int 1000 = u ''1000''" by (simp add: record_eval_simps)
  ultimately show ?thesis by simp
qed

section \<open>The characters of the assembled stream\<close>

lemma split_ws_empty: "dropWhile isspace s = [] \<Longrightarrow> split_ws s = []"
  by (subst split_ws.simps) (simp add: Let_def)

lemma split_ws_word:
  "dropWhile isspace s \<noteq> [] \<Longrightarrow>
   split_ws s = takeWhile (\<lambda>c. \<not> isspace c) (dropWhile isspace s)
                # split_ws (dropWhile (\<lambda>c. \<not> isspace c) (dropWhile isspace s))"
  by (subst split_ws.simps) (simp add: Let_def)

lemma set_dropWhile_subset: "set (dropWhile P xs) \<subseteq> set xs"
  by (auto dest: set_dropWhileD)

lemma set_takeWhile_subset: "set (takeWhile P xs) \<subseteq> set xs"
  by (auto dest: set_takeWhileD)

lemma split_ws_set: "w \<in> set (split_ws s) \<Longrightarrow> set w \<subseteq> set s"
proof (induction s arbitrary: w rule: split_ws.induct)
  case (1 s)
  let ?t = "dropWhile isspace s"
  let ?P = "\<lambda>c. \<not> isspace c"
  have ne: "?t \<noteq> []"
  proof
    assume "?t = []"
    then have "split_ws s = []" by (rule split_ws_empty)
    then show False using "1.prems" by simp
  qed
  have ts: "set ?t \<subseteq> set s" by (rule set_dropWhile_subset)
  have "w = takeWhile ?P ?t \<or> w \<in> set (split_ws (dropWhile ?P ?t))"
    using "1.prems" unfolding split_ws_word [OF ne] by simp
  moreover have "set (takeWhile ?P ?t) \<subseteq> set s"
    using set_takeWhile_subset [of ?P ?t] ts by blast
  moreover have "set w \<subseteq> set s" if "w \<in> set (split_ws (dropWhile ?P ?t))"
  proof -
    have "set w \<subseteq> set (dropWhile ?P ?t)" using "1.IH" [OF refl ne that] .
    then show ?thesis using set_dropWhile_subset [of ?P ?t] ts by blast
  qed
  ultimately show ?case by blast
qed

lemma join_set: "set (join sep xs) \<subseteq> set sep \<union> \<Union> (set ` set xs)"
  by (induction sep xs rule: join.induct) auto

lemma strip_set: "set (strip s) \<subseteq> set s"
proof -
  have "set (dropWhile isspace (rev (dropWhile isspace s))) \<subseteq> set (dropWhile isspace s)"
    using set_dropWhile_subset [of isspace "rev (dropWhile isspace s)"] by simp
  then show ?thesis
    unfolding strip_def using set_dropWhile_subset [of isspace s] by auto
qed

lemma replace_set: "set (replace old new s) \<subseteq> set s \<union> set new"
proof (induction old new s rule: replace.induct)
  case (1 old new)
  then show ?case by simp
next
  case (2 old new x xs)
  show ?case
  proof (cases "old \<noteq> [] \<and> prefix old (x # xs)")
    case True
    then have "set (replace old new (drop (length old - 1) xs)) \<subseteq> set (drop (length old - 1) xs) \<union> set new"
      using 2 by simp
    moreover have "set (drop (length old - 1) xs) \<subseteq> set xs" by (rule set_drop_subset)
    ultimately show ?thesis using True by auto
  next
    case False
    then show ?thesis using 2 by auto
  qed
qed

lemma format_text_set: "set (format_text s) \<subseteq> set s \<union> {32} \<union> set PRESERVECIRC"
proof -
  have "set (remove_break_lines_characters s) \<subseteq> set s \<union> {32}"
    unfolding remove_break_lines_characters_def
    using join_set [of "u '' ''" "split_ws s"] split_ws_set [of _ s] by (auto simp: u_def)
  then have "set (strip (remove_break_lines_characters s)) \<subseteq> set s \<union> {32}"
    using strip_set by blast
  then show ?thesis
    unfolding format_text_def
    using replace_set [of "u ''^''" PRESERVECIRC "strip (remove_break_lines_characters s)"] by blast
qed

lemma serializer_chars_simps:
  "32 \<in> set serializer_chars" "44 \<in> set serializer_chars" "48 \<in> set serializer_chars"
  "45 \<in> set serializer_chars" "94 \<in> set serializer_chars" "10 \<in> set serializer_chars"
  "set PRESERVECIRC \<subseteq> set serializer_chars" "set (u ''!v'') \<subseteq> set serializer_chars"
  "set (u ''!ID '') \<subseteq> set serializer_chars" "33 \<in> set serializer_chars"
  by (simp_all add: serializer_chars_def PRESERVECIRC_def u_def)

lemma format_text_chars:
  "c \<in> set (format_text s) \<Longrightarrow> c \<in> set s \<or> c \<in> set serializer_chars"
  using format_text_set [of s] serializer_chars_simps(1,7) by blast

lemma format_value_chars:
  assumes "format_value v = Inr s" "c \<in> set s"
  shows "has_char c v \<or> c \<in> set serializer_chars"
proof (cases v)
  case PNone
  then show ?thesis using assms by simp
next
  case (PStr t)
  then show ?thesis using assms format_text_chars by auto
next
  case (PList xs)
  then have "s = format_text []" using assms(1) by (simp split: if_splits)
  then have "c \<in> set [] \<or> c \<in> set serializer_chars"
    using assms(2) format_text_chars [of c "[]"] by simp
  then show ?thesis by simp
next
  case (PDict d)
  then have "c \<in> set (join (u '', '') (map fst d)) \<or> c \<in> set serializer_chars"
    using assms format_text_chars by auto
  then have "c \<in> \<Union> (set ` set (map fst d)) \<or> c \<in> set serializer_chars"
    using join_set [of "u '', ''" "map fst d"] serializer_chars_simps(1,2) by (auto simp: u_def)
  then show ?thesis using PDict by (fastforce simp: list_ex_iff)
qed

lemma format_subfield_chars:
  assumes "format_subfield k v = Inr s" "c \<in> set s"
  shows "c \<in> set k \<or> has_char c v \<or> c \<in> set serializer_chars"
proof (cases "truthy v \<and> sublist k (u ''abcdefghijklmnopqrstuvwxyz123456789'')")
  case False
  then show ?thesis using assms by (auto simp: format_subfield_def)
next
  case True
  then obtain t where t: "format_value v = Inr t" "s = u ''^'' @ k @ t"
    using assms(1) by (cases "format_value v") (auto simp: format_subfield_def)
  then show ?thesis using assms(2) format_value_chars [OF t(1)] serializer_chars_simps(5)
    by (auto simp: u_def)
qed

lemma map_err_Inr_elem:
  "map_err f xs = Inr ys \<Longrightarrow> y \<in> set ys \<Longrightarrow> \<exists>x \<in> set xs. f x = Inr y"
  by (induction xs arbitrary: ys) (auto split: sum.splits)

lemma format_subfields_chars:
  assumes "format_subfields d = Inr s" "c \<in> set s"
  shows "has_char c (PDict d) \<or> c \<in> set serializer_chars"
proof -
  let ?m = "case map_of d (u ''_'') of None \<Rightarrow> PStr [] | Some v \<Rightarrow> if truthy v then v else PStr []"
  obtain first where first: "format_value ?m = Inr first"
    using assms(1) by (cases "format_value ?m") (auto simp: format_subfields_def)
  obtain vals where vals: "map_err (\<lambda>(k, v). format_subfield k v) d = Inr vals"
    and s: "s = first @ concat (sort vals)"
    using assms(1) first
    by (cases "map_err (\<lambda>(k, v). format_subfield k v) d") (auto simp: format_subfields_def)
  have hm: "has_char c ?m \<Longrightarrow> has_char c (PDict d)"
    by (auto simp: list_ex_iff split: option.splits if_splits dest!: map_of_SomeD)
  consider "c \<in> set first" | y where "y \<in> set vals" "c \<in> set y" using assms(2) s by auto
  then show ?thesis
  proof cases
    case 1
    then show ?thesis using format_value_chars [OF first] hm by blast
  next
    case 2
    then obtain x where x: "x \<in> set d" "(\<lambda>(k, v). format_subfield k v) x = Inr y"
      using map_err_Inr_elem [OF vals] by blast
    obtain k v where kv: "x = (k, v)" by (cases x)
    then have "c \<in> set k \<or> has_char c v \<or> c \<in> set serializer_chars"
      using format_subfield_chars [of k v y c] x(2) 2(2) by simp
    then show ?thesis using x(1) kv by (auto simp: list_ex_iff)
  qed
qed

lemma zfill_set: "set (zfill w s) \<subseteq> set s \<union> {48}"
  by (cases s) (auto simp: zfill_def Let_def)

lemma str_int_set: "set (str_int i) \<subseteq> set serializer_chars"
proof -
  have "set (digits n) \<subseteq> set serializer_chars" for n
  proof
    fix c assume "c \<in> set (digits n)"
    then have "48 \<le> c \<and> c \<le> 57" by (rule digits_range)
    then have "c = 48 \<or> c = 49 \<or> c = 50 \<or> c = 51 \<or> c = 52 \<or> c = 53 \<or> c = 54 \<or> c = 55
        \<or> c = 56 \<or> c = 57" by arith
    then show "c \<in> set serializer_chars" by (auto simp: serializer_chars_def u_def)
  qed
  then show ?thesis using serializer_chars_simps(4) by (auto simp: str_int_def)
qed

lemma tag_content_chars:
  assumes "tag_content tag val = Inr s" "c \<in> set s"
  shows "c \<in> set val \<or> c \<in> set tag \<or> c \<in> set serializer_chars"
proof -
  have "s = [] \<or> s = u ''!v'' @ zfill 3 tag @ u ''!'' @ val @ [10]"
    using assms(1) by (auto simp: tag_content_result split: if_splits)
  then have "set s \<subseteq> set (u ''!v'') \<union> set (zfill 3 tag) \<union> {33} \<union> set val \<union> {10}"
    by (auto simp: u_def)
  then show ?thesis
    using assms(2) zfill_set [of 3 tag] serializer_chars_simps(3,6,8,10) by blast
qed

lemma format_subfields_main_only:
  "format_subfields [(u ''_'', PStr s)] = Inr (format_text s)"
proof -
  have "\<not> sublist (u ''_'') subfield_codes"
    by (simp add: u_def subfield_codes_def sublist_code(3))
  then show ?thesis
    using format_subfields_str [of "[(u ''_'', PStr s)]"] by simp
qed

lemma tag_occ_chars:
  assumes "tag_occ tag x = Inr s" "c \<in> set s"
  shows "has_char c x \<or> c \<in> set tag \<or> c \<in> set serializer_chars"
proof (cases "truthy x")
  case False
  then show ?thesis using assms by (simp add: tag_occ_def)
next
  case True
  let ?d = "case x of PStr s \<Rightarrow> Inr [(u ''_'', PStr s)] | PDict d \<Rightarrow> Inr d | _ \<Rightarrow> Inl TypeError"
  obtain d where d: "?d = Inr d"
    using assms(1) True by (cases ?d) (auto simp: tag_occ_def)
  obtain val where val: "format_subfields d = Inr val" "tag_content tag val = Inr s"
    using assms(1) True d by (cases "format_subfields d") (auto simp: tag_occ_def)
  have "c \<in> set val \<Longrightarrow> has_char c x \<or> c \<in> set serializer_chars"
  proof (cases x)
    case (PStr t)
    assume c: "c \<in> set val"
    have "d = [(u ''_'', PStr t)]" using d PStr by simp
    then have "val = format_text t" using val(1) format_subfields_main_only [of t] by simp
    then show ?thesis using c PStr format_text_chars by auto
  next
    case (PDict e)
    assume "c \<in> set val"
    then show ?thesis using d val(1) PDict format_subfields_chars by auto
  qed (use d in auto)
  then show ?thesis
    using tag_content_chars [OF val(2) assms(2)] by blast
qed

lemma tag_data_chars:
  assumes "tag_data tag v = Inr items" "c \<in> set (concat items)"
  shows "has_char c v \<or> c \<in> set tag \<or> c \<in> set serializer_chars"
proof -
  let ?occs = "case v of PList xs \<Rightarrow> xs | _ \<Rightarrow> [v]"
  have t: "truthy v" using assms by (auto simp: tag_data_def split: if_splits)
  then have m: "map_err (tag_occ tag) ?occs = Inr items" using assms(1) by (simp add: tag_data_def)
  obtain y where y: "y \<in> set items" "c \<in> set y" using assms(2) by auto
  obtain x where x: "x \<in> set ?occs" "tag_occ tag x = Inr y"
    using map_err_Inr_elem [OF m y(1)] by blast
  have "has_char c x \<Longrightarrow> has_char c v" using x(1) by (cases v) (auto simp: list_ex_iff)
  then show ?thesis using tag_occ_chars [OF x(2) y(2)] by blast
qed

lemma format_record_chars:
  assumes "format_record self r = Inr s" "content_formatter self = None" "c \<in> set s"
  shows "has_char c r \<or> c \<in> set serializer_chars"
proof (cases "truthy r")
  case False
  then show ?thesis using assms by (simp add: format_record_def)
next
  case True
  then obtain d where r: "r = PDict d" using assms(1) by (cases r) (auto simp: format_record_def)
  let ?parse = "\<lambda>s. case int_of_str s of None \<Rightarrow> Inl ValueError | Some i \<Rightarrow> Inr i"
  let ?g = "\<lambda>tag_i. let tag = str_int tag_i
             in case map_of d tag of None \<Rightarrow> Inl KeyError | Some data \<Rightarrow> tag_data tag data"
  obtain tags where tags: "map_err ?parse (map fst d) = Inr tags"
    using assms(1) True r by (cases "map_err ?parse (map fst d)") (auto simp: format_record_def)
  obtain items where items: "map_err ?g (sort tags) = Inr items" and s: "s = concat (concat items)"
    using assms(1,2) True r tags
    by (cases "map_err ?g (sort tags)") (auto simp: format_record_def)
  obtain item where item: "item \<in> set items" "c \<in> set (concat item)" using assms(3) s by auto
  obtain tag_i where g: "?g tag_i = Inr item" using map_err_Inr_elem [OF items item(1)] by blast
  then obtain data where data: "map_of d (str_int tag_i) = Some data"
    "tag_data (str_int tag_i) data = Inr item"
    by (cases "map_of d (str_int tag_i)") (auto simp: Let_def)
  have "(str_int tag_i, data) \<in> set d" using data(1) by (rule map_of_SomeD)
  then have "has_char c data \<Longrightarrow> has_char c r" using r by (auto simp: list_ex_iff)
  then show ?thesis using tag_data_chars [OF data(2) item(2)] str_int_set by blast
qed

lemma format_id_chars:
  assumes "format_id i = Inr s"
  shows "set s \<subseteq> set serializer_chars"
proof -
  have "s = u ''!ID '' @ zfill 6 (str_int i) @ [10]"
    using assms by (auto simp: format_id_result split: if_splits)
  then have "set s \<subseteq> set (u ''!ID '') \<union> set (zfill 6 (str_int i)) \<union> {10}" by auto
  then show ?thesis
    using zfill_set [of 6 "str_int i"] str_int_set [of i] serializer_chars_simps(3,6,9) by blast
qed

lemma format_file_loop_chars:
  assumes "format_file_loop self i rs = Inr ss" "content_formatter self = None"
    "c \<in> set (concat ss)"
  shows "list_ex (has_char c) rs \<or> c \<in> set serializer_chars"
  using assms
proof (induction rs arbitrary: i ss)
  case Nil
  then show ?case by simp
next
  case (Cons r rs)
  obtain a where a: "format_id (i + 1) = Inr a"
    using Cons.prems(1) by (cases "format_id (i + 1)") auto
  obtain b where b: "format_record self r = Inr b"
    using Cons.prems(1) a by (cases "format_record self r") auto
  obtain rest where rest: "format_file_loop self (i + 1) rs = Inr rest" "ss = (a @ b) # rest"
    using Cons.prems(1) a b by (cases "format_file_loop self (i + 1) rs") auto
  consider "c \<in> set a" | "c \<in> set b" | "c \<in> set (concat rest)"
    using Cons.prems(3) rest(2) by auto
  then show ?case
  proof cases
    case 1
    then show ?thesis using format_id_chars [OF a] by blast
  next
    case 2
    then show ?thesis using format_record_chars [OF b Cons.prems(2)] by auto
  next
    case 3
    then show ?thesis using Cons.IH [OF rest(1) Cons.prems(2)] by auto
  qed
qed

lemma format_file_chars:
  assumes "format_file self rs = Inr s" "content_formatter self = None" "c \<in> set s"
  shows "list_ex (has_char c) rs \<or> c \<in> set serializer_chars"
proof -
  obtain ss where "format_file_loop self 0 rs = Inr ss" "s = concat ss"
    using assms(1) by (cases "format_file_loop self 0 rs") (auto simp: format_file_def)
  then show ?thesis using format_file_loop_chars [OF _ assms(2)] assms(3) by blast
qed

lemmas write_eval_simps = write_then_read_def IDFile_write_def IDFile_read_def write_content_def
  format_file_def format_record_def tag_data_def tag_occ_def tag_content_def format_id_def
  format_subfields_def format_subfield_def format_text_def remove_break_lines_characters_def
  strip_def split_ws_Nil split_ws_Cons isspace_def zfill_def MAX_DIGITS_QTD_def
  IDFile_default_def empty_fs_def out_fs_def html5_sample_def read_file_def
  dirname_def path_split_def rstrip_sep_def
  unescape_def charref_len_def replace_charref_def opt_semicolon_def isdigit_def isxdigit_def
  isnamechar_def num_val_def xdigit_val_def invalid_charrefs_def invalid_codepoint_def
  xmlcharrefreplace_def
  get_record_data_def get_field_data_def int_of_str_def str_int_def digits.simps decimal_def
  decimal_zeros_def int_space_def Let_def replicate_numeral
  u_def PRESERVECIRC_def ESCAPED_CIRC_def sublist_code(3)

section \<open>Searching, replacing and splitting: lemmas\<close>

subsection \<open>replace\<close>

lemma replace_old_append:
  assumes "old \<noteq> []"
  shows "replace old new (old @ xs) = new @ replace old new xs"
proof -
  obtain a as where old: "old = a # as" using assms by (cases old) auto
  show ?thesis unfolding old by simp
qed

lemma replace_no_head:
  assumes "old \<noteq> []" "hd old \<notin> set xs"
  shows "replace old new (xs @ ys) = xs @ replace old new ys"
  using assms
proof (induction xs)
  case Nil
  then show ?case by simp
next
  case (Cons x xs)
  then have "\<not> prefix old (x # xs @ ys)" by (cases old) auto
  then show ?case using Cons by simp
qed

lemma replace_inverse:
  assumes "old \<noteq> []" "new \<noteq> []" "hd new \<notin> set s"
  shows "replace new old (replace old new s) = s"
  using assms
proof (induction old new s rule: replace.induct)
  case (1 old new)
  then show ?case by simp
next
  case (2 old new x xs)
  show ?case
  proof (cases "prefix old (x # xs)")
    case True
    then obtain a as where old: "old = a # as" using "2.prems"(1) by (cases old) auto
    have xs: "x # xs = old @ drop (length old - 1) xs"
      using True old by (auto simp: prefix_def)
    have "hd new \<notin> set (drop (length old - 1) xs)"
      using "2.prems"(3) set_drop_subset [of "length old - 1" xs] by auto
    then have "replace new old (replace old new (drop (length old - 1) xs)) = drop (length old - 1) xs"
      using "2.IH"(1) "2.prems"(1,2) True by simp
    then have "replace new old (new @ replace old new (drop (length old - 1) xs))
        = old @ drop (length old - 1) xs"
      using replace_old_append [OF "2.prems"(2)] by simp
    moreover have "replace old new (x # xs) = new @ replace old new (drop (length old - 1) xs)"
      using True "2.prems"(1) by simp
    ultimately have "replace new old (replace old new (x # xs)) = old @ drop (length old - 1) xs"
      by (simp only:)
    then show ?thesis using xs by (simp only:)
  next
    case False
    have "x \<noteq> hd new" using "2.prems"(3) by auto
    then have np: "\<not> prefix new (x # replace old new xs)" using "2.prems"(2) by (cases new) auto
    have "replace new old (replace old new xs) = xs"
      using "2.IH"(2) False "2.prems" by simp
    then show ?thesis using False np by simp
  qed
qed

lemma replace_char_notin:
  assumes "c \<notin> set new"
  shows "c \<notin> set (replace [c] new s)"
  using assms by (induction s) auto

lemma replace_char_Nil_iff: "new \<noteq> [] \<Longrightarrow> replace [c] new s = [] \<longleftrightarrow> s = []"
  by (cases s) auto

lemma prefix_replace_char:
  assumes "prefix p (replace [c] new xs)" "c \<notin> set p" "new \<noteq> []" "hd new \<notin> set p"
  shows "prefix p xs"
  using assms
proof (induction p arbitrary: xs)
  case Nil
  then show ?case by simp
next
  case (Cons a p)
  then obtain x xs' where xs: "xs = x # xs'" by (cases xs) auto
  have "x \<noteq> c"
  proof
    assume "x = c"
    then have "prefix (a # p) (new @ replace [c] new xs')" using Cons.prems(1) xs by simp
    then have "a = hd new" using Cons.prems(3) by (cases new) auto
    then show False using Cons.prems(4) by simp
  qed
  then have "prefix (a # p) (x # replace [c] new xs')" using Cons.prems(1) xs by simp
  then have "a = x" "prefix p (replace [c] new xs')" by auto
  then show ?case using Cons.IH [of xs'] Cons.prems xs by simp
qed

lemma replace_char_inverse:
  assumes "new = b # rest" "b \<notin> set rest" "c \<notin> set new" "\<not> sublist new v"
  shows "replace new [c] (replace [c] new v) = v"
  using assms(4)
proof (induction v)
  case Nil
  then show ?case by simp
next
  case (Cons x xs)
  have ne: "new \<noteq> []" using assms(1) by simp
  have ns: "\<not> sublist new xs" using Cons.prems by (simp add: sublist_Cons_right)
  have np: "\<not> prefix new (x # xs)" using Cons.prems by (simp add: sublist_Cons_right)
  have ih: "replace new [c] (replace [c] new xs) = xs" using Cons.IH [OF ns] .
  show ?case
  proof (cases "x = c")
    case True
    have "replace [c] new (x # xs) = new @ replace [c] new xs" using True by simp
    moreover have "replace new [c] (new @ replace [c] new xs)
        = [c] @ replace new [c] (replace [c] new xs)"
      by (rule replace_old_append [OF ne])
    ultimately have "replace new [c] (replace [c] new (x # xs)) = [c] @ xs"
      using ih by (simp only:)
    then show ?thesis using True by simp
  next
    case False
    have r: "replace [c] new (x # xs) = x # replace [c] new xs" using False by simp
    have "\<not> prefix new (x # replace [c] new xs)"
    proof
      assume "prefix new (x # replace [c] new xs)"
      then have "prefix (b # rest) (x # replace [c] new xs)" unfolding assms(1) .
      then have x: "x = b" and p: "prefix rest (replace [c] new xs)" by simp_all
      have c: "c \<notin> set rest" using assms(1,3) by simp
      have h: "hd new \<notin> set rest" using assms(1,2) by simp
      have "prefix rest xs" by (rule prefix_replace_char [OF p c ne h])
      then have "prefix (b # rest) (x # xs)" using x by simp
      then show False using np unfolding assms(1) by simp
    qed
    then have "replace new [c] (x # replace [c] new xs) = x # replace new [c] (replace [c] new xs)"
      by simp
    then show ?thesis unfolding r ih .
  qed
qed

subsection \<open>sublist\<close>

lemma sublist_split_char:
  assumes "c \<notin> set p"
  shows "sublist p (a @ c # b) \<longleftrightarrow> sublist p a \<or> sublist p b"
proof
  assume "sublist p (a @ c # b)"
  then obtain ps ss where e: "a @ c # b = ps @ p @ ss" by (auto simp: sublist_def)
  show "sublist p a \<or> sublist p b"
  proof (cases "length ps + length p \<le> length a")
    case True
    then have "take (length ps + length p) (a @ c # b) = take (length ps + length p) a" by simp
    moreover have "take (length ps + length p) (ps @ p @ ss) = ps @ p" by simp
    ultimately have "ps @ p = take (length ps + length p) a" using e by simp
    then have "a = ps @ p @ drop (length ps + length p) a"
      by (metis append_assoc append_take_drop_id)
    then show ?thesis by (metis sublist_appendI)
  next
    case False
    have "length a < length ps"
    proof (rule ccontr)
      assume "\<not> length a < length ps"
      then have l: "length ps \<le> length a" "length a - length ps < length p" using False by auto
      have "(ps @ p @ ss) ! length a = p ! (length a - length ps)"
        using l by (simp add: nth_append)
      moreover have "(a @ c # b) ! length a = c" by simp
      ultimately have "c = p ! (length a - length ps)" using e by simp
      then have "c \<in> set p" using l(2) by simp
      then show False using assms by simp
    qed
    then have "drop (Suc (length a)) (a @ c # b) = b"
      and "drop (Suc (length a)) (ps @ p @ ss) = drop (Suc (length a)) ps @ p @ ss" by simp_all
    then have "b = drop (Suc (length a)) ps @ p @ ss" using e by simp
    then show ?thesis by (metis sublist_appendI)
  qed
next
  assume "sublist p a \<or> sublist p b"
  then show "sublist p (a @ c # b)"
  proof
    assume "sublist p a"
    then obtain ps ss where "a = ps @ p @ ss" by (auto simp: sublist_def)
    then have "a @ c # b = ps @ p @ (ss @ c # b)" by simp
    then show ?thesis by (metis sublist_appendI)
  next
    assume "sublist p b"
    then obtain ps ss where "b = ps @ p @ ss" by (auto simp: sublist_def)
    then have "a @ c # b = (a @ c # ps) @ p @ ss" by simp
    then show ?thesis by (metis sublist_appendI)
  qed
qed

lemma sublist_skip_prefix:
  assumes "p \<noteq> []" "hd p \<notin> set a" "sublist p (a @ b)"
  shows "sublist p b"
  using assms
proof (induction a)
  case Nil
  then show ?case by simp
next
  case (Cons x a)
  have "\<not> prefix p (x # a @ b)" using Cons.prems(1,2) by (cases p) auto
  then have "sublist p (a @ b)" using Cons.prems(3) by (simp add: sublist_Cons_right)
  then show ?case using Cons by simp
qed

lemma sublist_replace_char:
  assumes "\<not> sublist p xs" "p \<noteq> []" "hd p \<notin> set new" "c \<notin> set p" "new \<noteq> []"
    "hd new \<notin> set p"
  shows "\<not> sublist p (replace [c] new xs)"
  using assms(1)
proof (induction xs)
  case Nil
  then show ?case using assms(2) by simp
next
  case (Cons x xs)
  have ns: "\<not> sublist p (replace [c] new xs)"
    using Cons by (auto simp: sublist_Cons_right)
  show ?case
  proof (cases "x = c")
    case True
    then show ?thesis using ns sublist_skip_prefix [OF assms(2,3)] by auto
  next
    case False
    have "\<not> prefix p (replace [c] new (x # xs))"
    proof
      assume "prefix p (replace [c] new (x # xs))"
      then have "prefix p (x # xs)" by (rule prefix_replace_char [OF _ assms(4,5,6)])
      then have "sublist p (x # xs)" by (rule prefix_imp_sublist)
      then show False using Cons.prems by simp
    qed
    then show ?thesis using False ns by (simp add: sublist_Cons_right)
  qed
qed

subsection \<open>split\<close>

lemma split_on_not_Nil: "split_on sep s \<noteq> []"
  by (cases s) (simp_all split: list.split)

lemma split_on_skip:
  assumes "\<not> prefix sep (x # xs)"
  shows "split_on sep (x # xs) = (x # hd (split_on sep xs)) # tl (split_on sep xs)"
  using assms split_on_not_Nil [of sep xs] by (cases "split_on sep xs") auto

lemma split_on_none:
  assumes "\<not> sublist sep a"
  shows "split_on sep a = [a]"
  using assms
proof (induction a)
  case Nil
  then show ?case by simp
next
  case (Cons x a)
  then have "\<not> prefix sep (x # a)" "\<not> sublist sep a" by (auto simp: sublist_Cons_right)
  then show ?case using Cons.IH split_on_skip by simp
qed

lemma split_on_first:
  assumes "sep \<noteq> []" "\<not> sublist sep (a @ butlast sep)"
  shows "split_on sep (a @ sep @ b) = a # split_on sep b"
  using assms(2)
proof (induction a)
  case Nil
  obtain s ss where sep: "sep = s # ss" using assms(1) by (cases sep) auto
  show ?case unfolding sep by simp
next
  case (Cons x a)
  obtain bs l where sep: "sep = bs @ [l]" using assms(1) by (cases sep rule: rev_cases) auto
  have ns: "\<not> sublist sep (a @ butlast sep)"
    using Cons.prems by (auto simp: sublist_Cons_right)
  have "\<not> prefix sep (x # a @ sep @ b)"
  proof
    assume "prefix sep (x # a @ sep @ b)"
    then have "take (length sep) (x # a @ sep @ b) = sep"
      by (auto simp: prefix_def)
    then have "take (Suc (length bs)) ((x # a @ bs) @ l # b) = sep" by (simp add: sep)
    then have "take (Suc (length bs)) (x # a @ bs) = sep" by simp
    then have "prefix sep (x # a @ bs)" by (metis take_is_prefix)
    then have "sublist sep ((x # a) @ butlast sep)" by (simp add: sep)
    then show False using Cons.prems by simp
  qed
  then show ?case using Cons.IH [OF ns] split_on_skip [of sep x "a @ sep @ b"] by simp
qed

lemma split_on_char:
  assumes "c \<notin> set a"
  shows "split_on [c] (a @ c # b) = a # split_on [c] b"
proof -
  have "\<not> sublist [c] a" using assms set_mono_sublist by fastforce
  then show ?thesis using split_on_first [of "[c]" a b] by simp
qed

section \<open>From the assembled stream to the parser\<close>

lemma num_val_digits: "num_val 10 (digits n) = n"
proof -
  have "\<forall>c \<in> set ds. 48 \<le> c \<and> c \<le> 57 \<Longrightarrow>
      foldl (\<lambda>acc c. 10 * acc + xdigit_val c) a ds = dec_fold a ds" for ds a
    by (induction ds arbitrary: a) (simp_all add: dec_fold_def xdigit_val_def)
  then have "num_val 10 (digits n) = dec_fold 0 (digits n)"
    using digits_range unfolding num_val_def by blast
  then show ?thesis by (simp add: dec_fold_digits)
qed

lemma digits_isdigit: "c \<in> set (digits n) \<Longrightarrow> isdigit c"
  using digits_range by (simp add: isdigit_def)

lemma takeWhile_digits: "takeWhile isdigit (digits n @ 59 # rest) = digits n"
proof -
  have "\<not> isdigit 59" by (simp add: isdigit_def)
  then show ?thesis using digits_isdigit by (simp add: takeWhile_append2)
qed

lemma charref_len_decimal:
  "charref_len (35 # digits n @ 59 # rest) = Some (length (digits n) + 2)"
proof -
  have "0 < length (digits n)" using digits_nonempty by simp
  then show ?thesis
    unfolding charref_len_def by (simp add: takeWhile_digits opt_semicolon_def Let_def)
qed

lemma invalid_charrefs_above: "256 \<le> c \<Longrightarrow> map_of invalid_charrefs c = None"
  by (simp add: invalid_charrefs_def)

lemma replace_charref_decimal:
  assumes "256 \<le> c" "ok_codepoint c"
  shows "replace_charref html5 (35 # digits c @ [59]) = [c]"
proof -
  have "last (digits c) \<in> set (digits c)" using digits_nonempty [of c] by simp
  then have "48 \<le> last (digits c) \<and> last (digits c) \<le> 57" by (rule digits_range)
  then have l: "last (digits c) \<noteq> 59" by simp
  have "dropWhile (\<lambda>c. c = 59) (rev (digits c)) = rev (digits c)"
    using l digits_nonempty [of c] by (cases "rev (digits c)") (auto simp: last_rev hd_rev)
  then have body: "rev (dropWhile (\<lambda>c. c = 59) (rev (digits c @ [59]))) = digits c"
    by simp
  have "hd (digits c) \<in> set (digits c)" using digits_nonempty [of c] by simp
  then have "48 \<le> hd (digits c) \<and> hd (digits c) \<le> 57" by (rule digits_range)
  then have h: "hd (digits c) \<noteq> 120 \<and> hd (digits c) \<noteq> 88" by simp
  show ?thesis
    unfolding replace_charref_def
    using assms h
    by (simp add: body Let_def num_val_digits invalid_charrefs_above ok_codepoint_def
        del: rev_append)
qed

lemma charref_sub_xmlcharrefreplace:
  assumes "38 \<notin> set s" "\<forall>c \<in> set s. c < 256 \<or> ok_codepoint c"
  shows "charref_sub html5 (xmlcharrefreplace s) = s"
  using assms
proof (induction s)
  case Nil
  then show ?case by (simp add: xmlcharrefreplace_def)
next
  case (Cons c cs)
  have ih: "charref_sub html5 (xmlcharrefreplace cs) = cs" using Cons by simp
  show ?case
  proof (cases "c < 256")
    case True
    then have "xmlcharrefreplace (c # cs) = c # xmlcharrefreplace cs"
      by (simp add: xmlcharrefreplace_def)
    then show ?thesis using ih Cons.prems(1) by simp
  next
    case False
    then have ok: "256 \<le> c" "ok_codepoint c" using Cons.prems(2) by auto
    have x: "xmlcharrefreplace (c # cs) = 38 # 35 # digits c @ 59 # xmlcharrefreplace cs"
      using False by (simp add: xmlcharrefreplace_def u_def)
    have t: "take (length (digits c) + 2) (35 # digits c @ 59 # xmlcharrefreplace cs)
        = 35 # digits c @ [59]" by simp
    have d: "drop (length (digits c) + 2) (35 # digits c @ 59 # xmlcharrefreplace cs)
        = xmlcharrefreplace cs" by simp
    have "charref_sub html5 (38 # 35 # digits c @ 59 # xmlcharrefreplace cs)
        = replace_charref html5 (35 # digits c @ [59]) @ charref_sub html5 (xmlcharrefreplace cs)"
      by (simp add: charref_len_decimal)
    then show ?thesis unfolding x using ih replace_charref_decimal [OF ok] by simp
  qed
qed

lemma xmlcharrefreplace_id: "\<forall>c \<in> set s. c < 256 \<Longrightarrow> xmlcharrefreplace s = s"
  by (induction s) (simp_all add: xmlcharrefreplace_def)

lemma xmlcharrefreplace_set:
  "set (xmlcharrefreplace s) \<subseteq> {c \<in> set s. c < 256} \<union> {38, 35, 59} \<union> {c. 48 \<le> c \<and> c \<le> 57}"
proof (induction s)
  case Nil
  then show ?case by (simp add: xmlcharrefreplace_def)
next
  case (Cons a s)
  have x: "xmlcharrefreplace (a # s)
      = (if a < 256 then [a] else u ''&#'' @ digits a @ u '';'') @ xmlcharrefreplace s"
    by (simp add: xmlcharrefreplace_def)
  have "set (if a < 256 then [a] else u ''&#'' @ digits a @ u '';'')
      \<subseteq> {c \<in> set (a # s). c < 256} \<union> {38, 35, 59} \<union> {c. 48 \<le> c \<and> c \<le> 57}"
    using digits_range [of _ a] by (auto simp: u_def)
  then show ?case unfolding x using Cons.IH by auto
qed

lemma xmlcharrefreplace_no_amp:
  "38 \<notin> set (xmlcharrefreplace s) \<Longrightarrow> xmlcharrefreplace s = s"
proof (induction s)
  case Nil
  then show ?case by (simp add: xmlcharrefreplace_def)
next
  case (Cons a s)
  have x: "xmlcharrefreplace (a # s)
      = (if a < 256 then [a] else u ''&#'' @ digits a @ u '';'') @ xmlcharrefreplace s"
    by (simp add: xmlcharrefreplace_def)
  have "a < 256" using Cons.prems unfolding x by (auto simp: u_def split: if_splits)
  then show ?case using Cons unfolding x by simp
qed

lemma encode_decode:
  "the_text (decode (encode (Str s))) = xmlcharrefreplace s"
  by (simp add: xmlcharrefreplace_id)

lemma universal_newlines_id: "13 \<notin> set s \<Longrightarrow> universal_newlines s = s"
  by (induction s rule: universal_newlines.induct) auto

lemma pipeline:
  assumes f: "format_file self records = Inr content"
    and amp: "38 \<notin> set content" and bs: "92 \<notin> set content" and cr: "13 \<notin> set content"
    and cp: "\<forall>c \<in> set content. c < 256 \<or> ok_codepoint c"
    and dir: "isdir fs (dirname filename)"
    and unlocked: "\<not> locked fs filename" "\<not> isdir fs filename"
  shows "write_content html5 self records
           = Inr (xmlcharrefreplace (replace PRESERVECIRC ESCAPED_CIRC content))"
    and "write_then_read html5 self fs filename records
           = map_err get_record_data (tl (split_on (u ''!ID '') content))"
proof -
  let ?esc = "replace PRESERVECIRC ESCAPED_CIRC content"
  let ?x = "xmlcharrefreplace ?esc"
  have u1: "unescape html5 content = content" using amp by (simp add: unescape_def)
  show w: "write_content html5 self records = Inr ?x"
    by (simp add: write_content_def f u1 encode_decode del: encode.simps decode.simps)
  have esc_set: "set ?esc \<subseteq> set content \<union> {92, 94}"
    using replace_set [of PRESERVECIRC ESCAPED_CIRC content] by (auto simp: ESCAPED_CIRC_def)
  have x_set: "set ?x \<subseteq> {c \<in> set ?esc. c < 256} \<union> {38, 35, 59} \<union> {c. 48 \<le> c \<and> c \<le> 57}"
    by (rule xmlcharrefreplace_set)
  have x256: "\<forall>c \<in> set ?x. c < 256" using x_set by auto
  have x13: "13 \<notin> set ?x"
  proof
    assume "13 \<in> set ?x"
    then have "13 \<in> {c \<in> set ?esc. c < 256} \<union> {38, 35, 59} \<union> {c. 48 \<le> c \<and> c \<le> (57::nat)}"
      using x_set by blast
    then have "13 \<in> set ?esc" by simp
    then have "13 \<in> set content \<union> {92, 94}" using esc_set by blast
    then show False using cr by simp
  qed
  have wr: "IDFile_write html5 self fs filename records
      = (fs\<lparr>files := (files fs)(filename \<mapsto> ?x)\<rparr>, None)"
    using dir unlocked x256 by (simp add: IDFile_write_def w)
  have rf: "read_file (fs\<lparr>files := (files fs)(filename \<mapsto> ?x)\<rparr>) filename = Inr ?x"
    using x13 by (simp add: read_file_def universal_newlines_id)
  have "38 \<notin> set ?esc" using esc_set amp by auto
  moreover have "\<forall>c \<in> set ?esc. c < 256 \<or> ok_codepoint c" using esc_set cp by auto
  ultimately have "charref_sub html5 ?x = ?esc" by (rule charref_sub_xmlcharrefreplace)
  moreover have "38 \<notin> set ?x \<Longrightarrow> ?x = ?esc"
    by (rule xmlcharrefreplace_no_amp)
  ultimately have u2: "unescape html5 ?x = ?esc" by (auto simp: unescape_def)
  have "hd ESCAPED_CIRC \<notin> set content" using bs by (simp add: ESCAPED_CIRC_def)
  then have rev_esc: "replace ESCAPED_CIRC PRESERVECIRC ?esc = content"
    by (intro replace_inverse) (simp_all add: PRESERVECIRC_def ESCAPED_CIRC_def u_def)
  show "write_then_read html5 self fs filename records
           = map_err get_record_data (tl (split_on (u ''!ID '') content))"
    by (simp add: write_then_read_def wr IDFile_read_def rf u2 rev_esc Let_def)
qed

section \<open>Normalized texts\<close>

lemma split_ws_words:
  "w \<in> set (split_ws s) \<Longrightarrow> w \<noteq> [] \<and> (\<forall>c \<in> set w. \<not> isspace c)"
proof (induction s arbitrary: w rule: split_ws.induct)
  case (1 s)
  let ?t = "dropWhile isspace s"
  let ?P = "\<lambda>c. \<not> isspace c"
  have ne: "?t \<noteq> []"
  proof
    assume "?t = []"
    then have "split_ws s = []" by (rule split_ws_empty)
    then show False using "1.prems" by simp
  qed
  have "w = takeWhile ?P ?t \<or> w \<in> set (split_ws (dropWhile ?P ?t))"
    using "1.prems" unfolding split_ws_word [OF ne] by simp
  then show ?case
  proof
    assume w: "w = takeWhile ?P ?t"
    have "\<not> isspace (hd ?t)" using hd_dropWhile [OF ne] .
    then have "takeWhile ?P ?t \<noteq> []" using ne by (cases ?t) simp_all
    moreover have "\<forall>c \<in> set (takeWhile ?P ?t). \<not> isspace c" by (auto dest: set_takeWhileD)
    ultimately show ?thesis unfolding w by (rule conjI)
  next
    assume "w \<in> set (split_ws (dropWhile ?P ?t))"
    then show ?thesis by (rule "1.IH" [OF refl ne])
  qed
qed

lemma trimmed_appendI:
  "a \<noteq> [] \<Longrightarrow> \<not> isspace (hd a) \<Longrightarrow> b \<noteq> [] \<Longrightarrow> \<not> isspace (last b) \<Longrightarrow> trimmed (a @ b)"
  by (simp add: trimmed_def)

lemma trimmed_word: "w \<noteq> [] \<Longrightarrow> \<forall>c \<in> set w. \<not> isspace c \<Longrightarrow> trimmed w"
  by (simp add: trimmed_def)

lemma join_words:
  assumes "ws \<noteq> []" "\<forall>w \<in> set ws. w \<noteq> [] \<and> (\<forall>c \<in> set w. \<not> isspace c)"
  shows "trimmed (join [32] ws) \<and> (\<forall>c \<in> set (join [32] ws). isspace c \<longrightarrow> c = 32)"
  using assms
proof (induction ws)
  case Nil
  then show ?case by simp
next
  case (Cons x ws)
  have x: "x \<noteq> []" "\<forall>c \<in> set x. \<not> isspace c" using Cons.prems(2) by simp_all
  show ?case
  proof (cases ws)
    case Nil
    then show ?thesis using x trimmed_word [OF x] by simp
  next
    case (Cons y ys)
    have ih: "trimmed (join [32] ws)" "\<forall>c \<in> set (join [32] ws). isspace c \<longrightarrow> c = 32"
      using Cons.IH Cons.prems(2) Cons by simp_all
    have j: "join [32] (x # ws) = x @ (32 # join [32] ws)" using Cons by simp
    have "last (32 # join [32] ws) = last (join [32] ws)" using ih(1) by (simp add: trimmed_def)
    then have "trimmed (x @ (32 # join [32] ws))"
      using x ih(1) by (intro trimmed_appendI) (simp_all add: trimmed_def)
    moreover have "\<forall>c \<in> set (x @ (32 # join [32] ws)). isspace c \<longrightarrow> c = 32"
      using x(2) ih(2) by auto
    ultimately show ?thesis unfolding j by simp
  qed
qed

lemma normalized_facts:
  assumes "remove_break_lines_characters s = s" "s \<noteq> []"
  shows "trimmed s" "\<forall>c \<in> set s. isspace c \<longrightarrow> c = 32"
proof -
  have j: "join [32] (split_ws s) = s"
    using assms(1) by (simp add: remove_break_lines_characters_def u_def)
  then have "split_ws s \<noteq> []" using assms(2) by auto
  then have "trimmed (join [32] (split_ws s)) \<and>
      (\<forall>c \<in> set (join [32] (split_ws s)). isspace c \<longrightarrow> c = 32)"
    using join_words split_ws_words by blast
  then show "trimmed s" "\<forall>c \<in> set s. isspace c \<longrightarrow> c = 32" unfolding j by simp_all
qed

lemma strip_trimmed: "trimmed s \<Longrightarrow> strip s = s"
proof -
  assume t: "trimmed s"
  then have "dropWhile isspace s = s" by (cases s) (auto simp: trimmed_def)
  moreover have "dropWhile isspace (rev s) = rev s"
    using t by (cases "rev s") (auto simp: trimmed_def last_rev hd_rev)
  ultimately show ?thesis by (simp add: strip_def)
qed

lemma strip_trimmed_newline: "trimmed s \<Longrightarrow> strip (s @ [10]) = s"
proof -
  assume t: "trimmed s"
  then have "dropWhile isspace (s @ [10]) = s @ [10]" by (cases s) (auto simp: trimmed_def)
  moreover have "dropWhile isspace (rev s) = rev s"
    using t by (cases "rev s") (auto simp: trimmed_def last_rev hd_rev)
  moreover have "isspace 10" by (simp add: isspace_def)
  ultimately show ?thesis by (simp add: strip_def)
qed

lemma last_replace_char:
  "s \<noteq> [] \<Longrightarrow> new \<noteq> [] \<Longrightarrow>
   last (replace [c] new s) = (if last s = c then last new else last s)"
proof (induction s)
  case Nil
  then show ?case by simp
next
  case (Cons x xs)
  show ?case
  proof (cases "xs = []")
    case True
    then show ?thesis using Cons.prems by simp
  next
    case False
    then have ne: "replace [c] new xs \<noteq> []" using Cons.prems(2) by (simp add: replace_char_Nil_iff)
    have ih: "last (replace [c] new xs) = (if last xs = c then last new else last xs)"
      using Cons.IH [OF False Cons.prems(2)] .
    have "last (replace [c] new (x # xs)) = last (replace [c] new xs)"
      using ne by (cases "x = c") simp_all
    then show ?thesis using ih False by simp
  qed
qed

lemma hd_replace_char:
  "new \<noteq> [] \<Longrightarrow> hd (replace [c] new (x # xs)) = (if x = c then hd new else x)"
  by simp

lemma trimmed_replace_circ:
  assumes "trimmed s"
  shows "trimmed (replace [94] PRESERVECIRC s)"
proof -
  obtain x xs where s: "s = x # xs" using assms by (cases s) (simp_all add: trimmed_def)
  have pc: "PRESERVECIRC \<noteq> []" "hd PRESERVECIRC = 91" "last PRESERVECIRC = 93"
    by (simp_all add: PRESERVECIRC_def u_def)
  have sx: "\<not> isspace x" "\<not> isspace (last s)" using assms s by (simp_all add: trimmed_def)
  have b: "\<not> isspace 91" "\<not> isspace 93" by (simp_all add: isspace_def)
  have "hd (replace [94] PRESERVECIRC s) = (if x = 94 then 91 else x)"
    unfolding s hd_replace_char [OF pc(1)] pc(2) ..
  then have h: "\<not> isspace (hd (replace [94] PRESERVECIRC s))" using sx(1) b(1) by simp
  have "last (replace [94] PRESERVECIRC s) = (if last s = 94 then 93 else last s)"
    using last_replace_char [of s PRESERVECIRC 94] pc s by simp
  then have l: "\<not> isspace (last (replace [94] PRESERVECIRC s))" using sx(2) b(2) by simp
  have ne: "replace [94] PRESERVECIRC s \<noteq> []" using s pc(1) by (simp add: replace_char_Nil_iff)
  show ?thesis using h l ne by (simp add: trimmed_def)
qed

text \<open>What \<open>ok_text\<close> gives for the rendered text.\<close>

lemma ok_text_format:
  assumes "ok_text s"
  shows "format_text s = replace [94] PRESERVECIRC s"
    and "trimmed (format_text s)"
    and "94 \<notin> set (format_text s)"
    and "10 \<notin> set (format_text s)"
    and "replace PRESERVECIRC [94] (format_text s) = s"
    and "\<not> sublist (u ''!ID '') (format_text s)"
proof -
  have n: "remove_break_lines_characters s = s" "s \<noteq> []" using assms by (simp_all add: ok_text_def)
  have t: "trimmed s" and sp: "\<forall>c \<in> set s. isspace c \<longrightarrow> c = 32"
    using normalized_facts [OF n] by simp_all
  show f: "format_text s = replace [94] PRESERVECIRC s"
    by (simp add: format_text_def n(1) strip_trimmed [OF t] u_def)
  show "trimmed (format_text s)" unfolding f using t by (rule trimmed_replace_circ)
  have pc94: "94 \<notin> set PRESERVECIRC" by (simp add: PRESERVECIRC_def u_def)
  show "94 \<notin> set (format_text s)" unfolding f using pc94 by (rule replace_char_notin)
  have "isspace 10" by (simp add: isspace_def)
  then have "10 \<notin> set s" using sp by auto
  moreover have "10 \<notin> set PRESERVECIRC" by (simp add: PRESERVECIRC_def u_def)
  ultimately show "10 \<notin> set (format_text s)"
    unfolding f using replace_set [of "[94]" PRESERVECIRC s] by auto
  have "\<not> sublist PRESERVECIRC s" using assms by (simp add: ok_text_def)
  then show "replace PRESERVECIRC [94] (format_text s) = s"
    unfolding f
    by (intro replace_char_inverse [where b = 91 and rest = "u ''PRESERVECIRC]''"])
       (simp_all add: PRESERVECIRC_def u_def)
  have "\<not> sublist (u ''!ID '') s" using assms by (simp add: ok_text_def)
  then show "\<not> sublist (u ''!ID '') (format_text s)"
    unfolding f
    by (intro sublist_replace_char) (simp_all add: PRESERVECIRC_def u_def)
qed

lemma ok_main_format:
  assumes "ok_main s"
  shows "\<not> prefix (u ''ID '') (format_text s)"
proof
  assume p: "prefix (u ''ID '') (format_text s)"
  have "ok_text s" using assms by (simp add: ok_main_def)
  then have f: "format_text s = replace [94] PRESERVECIRC s" by (rule ok_text_format(1))
  have "prefix (u ''ID '') s"
    using p unfolding f
    by (rule prefix_replace_char) (simp_all add: PRESERVECIRC_def u_def)
  then show False using assms by (simp add: ok_main_def)
qed

section \<open>The unescape passes and the circumflex\<close>

lemma circs_simps [simp]:
  "circs [] = 0" "circs (c # cs) = (if c = 94 then 1 else 0) + circs cs"
  "circs (a @ b) = circs a + circs b"
  by (simp_all add: circs_def)

lemma circs_notin: "94 \<notin> set s \<Longrightarrow> circs s = 0"
  by (induction s) auto

lemma circs_take_drop: "circs (take k s) + circs (drop k s) = circs s"
  using circs_simps(3) [of "take k s" "drop k s"] by simp

lemma unescape_charref_sub: "unescape html5 s = charref_sub html5 s"
proof -
  have "38 \<notin> set s \<Longrightarrow> charref_sub html5 s = s" by (induction s) auto
  then show ?thesis by (auto simp: unescape_def)
qed

lemma charref_sub_circs:
  "circs (charref_sub html5 s) + sum_list (map (\<lambda>(r, t). circs r) (charrefs html5 s))
     = circs s + sum_list (map (\<lambda>(r, t). circs t) (charrefs html5 s))"
proof (induction html5 s rule: charref_sub.induct)
  case (1 html5)
  then show ?case by simp
next
  case (2 html5 c cs)
  show ?case
  proof (cases "c = 38")
    case False
    then show ?thesis using 2 by simp
  next
    case True
    show ?thesis
    proof (cases "charref_len cs")
      case None
      then show ?thesis using True 2 by simp
    next
      case (Some k)
      have ih: "circs (charref_sub html5 (drop k cs))
          + sum_list (map (\<lambda>(r, t). circs r) (charrefs html5 (drop k cs)))
        = circs (drop k cs) + sum_list (map (\<lambda>(r, t). circs t) (charrefs html5 (drop k cs)))"
        using "2.IH"(2) [OF True Some] .
      show ?thesis using True Some ih circs_take_drop [of k cs] by simp
    qed
  qed
qed

lemma sum_list_le:
  "list_all (\<lambda>x. g x \<le> f x) xs \<Longrightarrow> sum_list (map g xs) \<le> (sum_list (map f xs) :: nat)"
  by (induction xs) auto

lemma unescape_circs_le:
  assumes "\<not> list_ex adds_circ (charrefs html5 s)"
  shows "circs (unescape html5 s) \<le> circs s"
proof -
  have "list_all (\<lambda>x. (\<lambda>(r, t). circs t) x \<le> (\<lambda>(r, t). circs r) x) (charrefs html5 s)"
    using assms by (auto simp: list_all_iff list_ex_iff)
  then have "sum_list (map (\<lambda>(r, t). circs t) (charrefs html5 s))
      \<le> sum_list (map (\<lambda>(r, t). circs r) (charrefs html5 s))"
    by (rule sum_list_le)
  then show ?thesis using charref_sub_circs [of html5 s] unfolding unescape_charref_sub by linarith
qed

text \<open>Circumflexes that no backslash escapes.\<close>

lemma bare_le_circs: "bare p s \<le> circs s"
  by (induction s arbitrary: p) (simp_all add: le_SucI)

lemma bare_mono: "bare True s \<le> bare False s"
  by (cases s) auto

lemma bare_append:
  "bare p (a @ b) = bare p a + bare (if a = [] then p else last a = 92) b"
  by (induction a arbitrary: p) auto

lemma bare_plain: "94 \<notin> set a \<Longrightarrow> bare p a = 0"
  by (induction a arbitrary: p) auto

lemma bare_replace_back: "circs (replace ESCAPED_CIRC PRESERVECIRC s) = bare False s"
proof (induction s rule: length_induct)
  case (1 s)
  show ?case
  proof (cases s)
    case Nil
    then show ?thesis by simp
  next
    case (Cons c cs)
    show ?thesis
    proof (cases "prefix ESCAPED_CIRC s")
      case True
      then obtain rest where s: "s = 92 # 94 # rest" by (auto simp: ESCAPED_CIRC_def prefix_def)
      have "circs (replace ESCAPED_CIRC PRESERVECIRC rest) = bare False rest"
        using 1 s by simp
      moreover have "circs PRESERVECIRC = 0" by (simp add: PRESERVECIRC_def u_def)
      ultimately show ?thesis unfolding s by (simp add: ESCAPED_CIRC_def)
    next
      case False
      have ih: "circs (replace ESCAPED_CIRC PRESERVECIRC cs) = bare False cs"
        using 1 Cons by simp
      have "bare (c = 92) cs = bare False cs"
      proof (cases "c = 92")
        case True
        then have "cs = [] \<or> hd cs \<noteq> 94" using False Cons by (cases cs) (auto simp: ESCAPED_CIRC_def)
        then show ?thesis by (cases cs) auto
      qed simp
      moreover have "replace ESCAPED_CIRC PRESERVECIRC (c # cs)
          = c # replace ESCAPED_CIRC PRESERVECIRC cs"
        using False Cons by (cases "c = 92") (simp_all add: ESCAPED_CIRC_def)
      ultimately show ?thesis unfolding Cons using ih by simp
    qed
  qed
qed

lemma bare_replace_esc: "bare p (replace PRESERVECIRC ESCAPED_CIRC s) \<le> circs s"
proof (induction s arbitrary: p rule: length_induct)
  case (1 s)
  show ?case
  proof (cases s)
    case Nil
    then show ?thesis by simp
  next
    case (Cons c cs)
    show ?thesis
    proof (cases "prefix PRESERVECIRC s")
      case True
      then obtain rest where s: "s = PRESERVECIRC @ rest" by (auto simp: prefix_def)
      have d: "drop (length PRESERVECIRC - 1) cs = rest"
        using s Cons by (simp add: PRESERVECIRC_def u_def)
      have "length rest < length s" using s by (simp add: PRESERVECIRC_def u_def)
      then have ih: "bare False (replace PRESERVECIRC ESCAPED_CIRC rest) \<le> circs rest"
        using 1 by simp
      have r: "replace PRESERVECIRC ESCAPED_CIRC s
          = ESCAPED_CIRC @ replace PRESERVECIRC ESCAPED_CIRC rest"
        using True Cons d by (simp add: PRESERVECIRC_def u_def)
      have "circs s = circs rest" unfolding s by (simp add: PRESERVECIRC_def u_def)
      then show ?thesis unfolding r using ih by (simp add: ESCAPED_CIRC_def)
    next
      case False
      have ih: "bare q (replace PRESERVECIRC ESCAPED_CIRC cs) \<le> circs cs" for q
        using 1 Cons by simp
      have r: "replace PRESERVECIRC ESCAPED_CIRC s = c # replace PRESERVECIRC ESCAPED_CIRC cs"
        using False Cons by simp
      have "bare p (c # replace PRESERVECIRC ESCAPED_CIRC cs)
          \<le> (if c = 94 then 1 else 0) + bare (c = 92) (replace PRESERVECIRC ESCAPED_CIRC cs)"
        by simp
      also have "\<dots> \<le> (if c = 94 then 1 else 0) + circs cs"
        using ih [of "c = 92"] by (simp only: add_left_mono)
      also have "\<dots> = circs s" unfolding Cons by simp
      finally show ?thesis unfolding r .
    qed
  qed
qed

lemma digits_plain: "94 \<notin> set (digits n) \<and> 92 \<notin> set (digits n)"
proof (induction n rule: digits.induct)
  case (1 n)
  then show ?case by (subst (1 2) digits.simps) auto
qed

lemma bare_xmlcharrefreplace: "bare p (xmlcharrefreplace s) = bare p s"
proof (induction s arbitrary: p)
  case Nil
  then show ?case by (simp add: xmlcharrefreplace_def)
next
  case (Cons c cs)
  have x: "xmlcharrefreplace (c # cs)
      = (if c < 256 then [c] else u ''&#'' @ digits c @ u '';'') @ xmlcharrefreplace cs"
    by (simp add: xmlcharrefreplace_def)
  show ?case
  proof (cases "c < 256")
    case True
    then show ?thesis using x Cons by simp
  next
    case False
    let ?a = "u ''&#'' @ digits c @ u '';''"
    have "94 \<notin> set ?a" using digits_plain [of c] by (simp add: u_def)
    then have "bare p ?a = 0" by (rule bare_plain)
    moreover have "?a \<noteq> []" "last ?a \<noteq> 92" by (simp_all add: u_def)
    moreover have "bare p (?a @ xmlcharrefreplace cs)
        = bare p ?a + bare (if ?a = [] then p else last ?a = 92) (xmlcharrefreplace cs)"
      by (rule bare_append)
    ultimately have "bare p (?a @ xmlcharrefreplace cs) = bare False (xmlcharrefreplace cs)"
      by (simp only: if_False add_0 simp_thms)
    then show ?thesis using False x Cons by simp
  qed
qed

lemma bare_universal_newlines: "bare p (universal_newlines s) = bare p s"
proof (induction s arbitrary: p rule: universal_newlines.induct)
  case 1
  then show ?case by simp
next
  case (2 c)
  then show ?case by simp
next
  case (3 c d ds)
  show ?case
  proof (cases "c = 13")
    case False
    then show ?thesis using "3.IH"(3) [OF False] by simp
  next
    case True
    show ?thesis
    proof (cases "d = 10")
      case d: True
      have "bare False (universal_newlines ds) = bare False ds"
        using "3.IH"(1) [OF True d] .
      then show ?thesis using True d by simp
    next
      case d: False
      have "bare False (universal_newlines (d # ds)) = bare False (d # ds)"
        using "3.IH"(2) [OF True d] .
      then show ?thesis using True d by simp
    qed
  qed
qed

lemma bare_ctx: "bare p s \<le> bare q s + (if q \<and> \<not> p then 1 else 0)"
  by (cases s; cases p; cases q) auto

lemma bare_charref_sub:
  "\<not> list_ex frees_circ (charrefs html5 s) \<Longrightarrow> bare p (charref_sub html5 s) \<le> bare p s"
proof (induction html5 s arbitrary: p rule: charref_sub.induct)
  case (1 html5)
  then show ?case by simp
next
  case (2 html5 c cs)
  show ?case
  proof (cases "c = 38")
    case False
    then show ?thesis using 2 by simp
  next
    case True
    show ?thesis
    proof (cases "charref_len cs")
      case None
      then show ?thesis using True 2 by simp
    next
      case (Some k)
      let ?r = "take k cs" and ?t = "replace_charref html5 (take k cs)" and ?rest = "drop k cs"
      have cr: "charrefs html5 (c # cs) = (c # ?r, ?t) # charrefs html5 ?rest"
        using True Some by simp
      have nf: "\<not> frees_circ (c # ?r, ?t)" and rest: "\<not> list_ex frees_circ (charrefs html5 ?rest)"
        using "2.prems" unfolding cr by simp_all
      have ih: "bare q (charref_sub html5 ?rest) \<le> bare q ?rest" for q
        using "2.IH"(2) [OF True Some rest] .
      have nf': "\<not> (bare False (c # ?r) < bare False ?t
          \<or> (last (c # ?r) = 92 \<and> (?t = [] \<or> last ?t \<noteq> 92)))"
        using nf unfolding frees_circ.simps bare_replace_back .
      have b: "bare False ?t \<le> bare False (c # ?r)"
        using nf' by linarith
      have e: "last (c # ?r) = 92 \<Longrightarrow> ?t \<noteq> [] \<and> last ?t = 92"
        using nf' by blast
      let ?q = "if ?t = [] then p else last ?t = 92"
      let ?q' = "last (c # ?r) = 92"
      have lhs: "bare p (charref_sub html5 (c # cs)) = bare p ?t + bare ?q (charref_sub html5 ?rest)"
        using True Some by (simp add: bare_append)
      have "c # cs = (c # ?r) @ ?rest" by simp
      moreover have "bare p ((c # ?r) @ ?rest)
          = bare p (c # ?r) + bare (if c # ?r = [] then p else last (c # ?r) = 92) ?rest"
        by (rule bare_append)
      ultimately have "bare p (c # cs) = bare p (c # ?r) + bare ?q' ?rest"
        by (simp only: list.distinct if_False)
      then have rhs: "bare p (c # cs) = bare False (c # ?r) + bare ?q' ?rest"
        using True by simp
      have 1: "bare p ?t \<le> bare False (c # ?r)"
        using b bare_ctx [of p ?t False] by simp
      have 2: "bare ?q (charref_sub html5 ?rest) \<le> bare ?q' ?rest"
      proof (cases "?q'")
        case True
        then have "?q" using e by simp
        then show ?thesis using ih [of True] True by simp
      next
        case False
        have "bare ?q (charref_sub html5 ?rest) \<le> bare False (charref_sub html5 ?rest)"
          using bare_ctx [of ?q "charref_sub html5 ?rest" False] by simp
        then show ?thesis using ih [of False] False by simp
      qed
      show ?thesis unfolding lhs rhs using 1 2 by simp
    qed
  qed
qed

lemma read_content_circs:
  assumes "\<not> list_ex adds_circ (charrefs html5 content)"
    and "\<not> list_ex frees_circ
           (charrefs html5 (universal_newlines
              (xmlcharrefreplace (replace PRESERVECIRC ESCAPED_CIRC (unescape html5 content)))))"
  shows "circs (read_content html5 (universal_newlines
              (xmlcharrefreplace (replace PRESERVECIRC ESCAPED_CIRC (unescape html5 content)))))
          \<le> circs content"
proof -
  let ?x = "unescape html5 content"
  let ?w = "xmlcharrefreplace (replace PRESERVECIRC ESCAPED_CIRC ?x)"
  let ?y0 = "universal_newlines ?w"
  have "circs (read_content html5 ?y0) = bare False (charref_sub html5 ?y0)"
    by (simp add: read_content_def bare_replace_back unescape_charref_sub)
  also have "\<dots> \<le> bare False ?y0" using assms(2) by (rule bare_charref_sub)
  also have "\<dots> = bare False (replace PRESERVECIRC ESCAPED_CIRC ?x)"
    by (simp add: bare_universal_newlines bare_xmlcharrefreplace)
  also have "\<dots> \<le> circs ?x" by (rule bare_replace_esc)
  also have "\<dots> \<le> circs content" using assms(1) by (rule unescape_circs_le)
  finally show ?thesis .
qed

lemma xmlcharrefreplace_bytes: "\<forall>c \<in> set (xmlcharrefreplace s). c < 256"
proof -
  have "c \<in> set (digits n) \<Longrightarrow> c < 256" for c n
    using digits_isdigit [of c n] by (simp add: isdigit_def)
  then show ?thesis by (auto simp: xmlcharrefreplace_def u_def split: if_splits)
qed

text \<open>
  Claim C6, as the code has it. For every record sequence that \<open>_format_file\<close> assembles
  into a stream, \<open>write\<close> has a stream to write, and the unescape pass brings in a
  circumflex only through a reference that it resolves: the circumflexes of the stream
  after the pass are those of the assembled stream, less those inside the resolved
  references, plus those of their replacements. So when no resolved reference yields more
  circumflexes than it held (as with \<open>&amp;\<close> or \<open>&lt;\<close>), the stream after the pass has
  no more circumflexes than the delimiters that the serializer wrote. When moreover no
  reference that the parser's own unescape pass resolves in the written stream frees a
  circumflex, the text that the parser splits has no more circumflexes than the
  serializer wrote either; that text is what \<open>read\<close> parses after \<open>write\<close>, when the
  directory of the file is there and the file can be opened.
\<close>

theorem unescape_adds_circumflex_only_from_reference:
  assumes "format_file self records = Inr content"
  shows "\<exists>w. write_content html5 self records = Inr w \<and>
     circs (unescape html5 content) + sum_list (map (\<lambda>(r, t). circs r) (charrefs html5 content))
       = circs content + sum_list (map (\<lambda>(r, t). circs t) (charrefs html5 content)) \<and>
     (\<not> list_ex adds_circ (charrefs html5 content) \<longrightarrow>
        circs (unescape html5 content) \<le> circs content) \<and>
     (\<not> list_ex adds_circ (charrefs html5 content) \<and>
      \<not> list_ex frees_circ (charrefs html5 (universal_newlines w)) \<longrightarrow>
        circs (read_content html5 (universal_newlines w)) \<le> circs content) \<and>
     (isdir fs (dirname filename) \<and> \<not> locked fs filename \<and> \<not> isdir fs filename \<longrightarrow>
        write_then_read html5 self fs filename records
          = map_err get_record_data
              (tl (split_on (u ''!ID '') (read_content html5 (universal_newlines w)))))"
proof -
  let ?w = "xmlcharrefreplace (replace PRESERVECIRC ESCAPED_CIRC (unescape html5 content))"
  have w: "write_content html5 self records = Inr ?w"
    by (simp add: write_content_def assms encode_decode del: encode.simps decode.simps)
  have 1: "circs (unescape html5 content)
        + sum_list (map (\<lambda>(r, t). circs r) (charrefs html5 content))
      = circs content + sum_list (map (\<lambda>(r, t). circs t) (charrefs html5 content))"
    unfolding unescape_charref_sub by (rule charref_sub_circs)
  have 2: "\<not> list_ex adds_circ (charrefs html5 content) \<longrightarrow>
        circs (unescape html5 content) \<le> circs content"
    using unescape_circs_le by blast
  have 3: "\<not> list_ex adds_circ (charrefs html5 content) \<and>
      \<not> list_ex frees_circ (charrefs html5 (universal_newlines ?w)) \<longrightarrow>
        circs (read_content html5 (universal_newlines ?w)) \<le> circs content"
    using read_content_circs by blast
  have 4: "isdir fs (dirname filename) \<and> \<not> locked fs filename \<and> \<not> isdir fs filename \<longrightarrow>
        write_then_read html5 self fs filename records
          = map_err get_record_data
              (tl (split_on (u ''!ID '') (read_content html5 (universal_newlines ?w))))"
  proof
    assume a: "isdir fs (dirname filename) \<and> \<not> locked fs filename \<and> \<not> isdir fs filename"
    have wr: "IDFile_write html5 self fs filename records
        = (fs\<lparr>files := (files fs)(filename \<mapsto> ?w)\<rparr>, None)"
      using a xmlcharrefreplace_bytes by (simp add: IDFile_write_def w)
    have rf: "read_file (fs\<lparr>files := (files fs)(filename \<mapsto> ?w)\<rparr>) filename
        = Inr (universal_newlines ?w)"
      by (simp add: read_file_def)
    show "write_then_read html5 self fs filename records
          = map_err get_record_data
              (tl (split_on (u ''!ID '') (read_content html5 (universal_newlines ?w))))"
      by (simp add: write_then_read_def wr IDFile_read_def rf read_content_def Let_def)
  qed
  show ?thesis using w 1 2 3 4 by blast
qed

lemmas c6_eval_simps = write_eval_simps read_content_def circs_def

theorem unescape_adds_circumflex_only_from_reference_witness:
  "format_file IDFile_default
       [PDict [(u ''1'', PStr (u ''a&amp;b'')), (u ''2'', PStr (u ''c&lt;d^e''))]]
     = Inr (u ''!ID 000001'' @ 10 # u ''!v001!a&amp;b'' @ 10 # u ''!v002!c&lt;d[PRESERVECIRC]e'' @ [10]) \<and>
   write_content html5_sample IDFile_default
       [PDict [(u ''1'', PStr (u ''a&amp;b'')), (u ''2'', PStr (u ''c&lt;d^e''))]]
     = Inr (u ''!ID 000001'' @ 10 # u ''!v001!a&b'' @ 10 # u ''!v002!c<d'' @ ESCAPED_CIRC @ u ''e'' @ [10]) \<and>
   \<not> list_ex adds_circ (charrefs html5_sample
       (u ''!ID 000001'' @ 10 # u ''!v001!a&amp;b'' @ 10 # u ''!v002!c&lt;d[PRESERVECIRC]e'' @ [10])) \<and>
   \<not> list_ex frees_circ (charrefs html5_sample (universal_newlines
       (u ''!ID 000001'' @ 10 # u ''!v001!a&b'' @ 10 # u ''!v002!c<d'' @ ESCAPED_CIRC @ u ''e'' @ [10]))) \<and>
   circs (read_content html5_sample (universal_newlines
       (u ''!ID 000001'' @ 10 # u ''!v001!a&b'' @ 10 # u ''!v002!c<d'' @ ESCAPED_CIRC @ u ''e'' @ [10])))
     \<le> circs (u ''!ID 000001'' @ 10 # u ''!v001!a&amp;b'' @ 10 # u ''!v002!c&lt;d[PRESERVECIRC]e'' @ [10]) \<and>
   write_then_read html5_sample IDFile_default out_fs (u ''out/f.id'')
       [PDict [(u ''1'', PStr (u ''a&amp;b'')), (u ''2'', PStr (u ''c&lt;d^e''))]]
     = Inr [PDict [(u ''1'', PStr (u ''a&b'')), (u ''2'', PStr (u ''c<d^e''))]]"
proof -
  let ?rs = "[PDict [(u ''1'', PStr (u ''a&amp;b'')), (u ''2'', PStr (u ''c&lt;d^e''))]]"
  let ?c = "u ''!ID 000001'' @ 10 # u ''!v001!a&amp;b'' @ 10 # u ''!v002!c&lt;d[PRESERVECIRC]e'' @ [10]"
  let ?w = "u ''!ID 000001'' @ 10 # u ''!v001!a&b'' @ 10 # u ''!v002!c<d'' @ ESCAPED_CIRC @ u ''e'' @ [10]"
  have f: "format_file IDFile_default ?rs = Inr ?c"
    by (simp add: write_eval_simps)
  have w: "write_content html5_sample IDFile_default ?rs = Inr ?w"
    by (simp add: write_eval_simps)
  have a: "\<not> list_ex adds_circ (charrefs html5_sample ?c)"
    by (simp add: c6_eval_simps)
  have b: "\<not> list_ex frees_circ (charrefs html5_sample (universal_newlines ?w))"
    by (simp add: c6_eval_simps)
  have d: "isdir out_fs (dirname (u ''out/f.id'')) \<and> \<not> locked out_fs (u ''out/f.id'')
      \<and> \<not> isdir out_fs (u ''out/f.id'')"
    by (simp add: write_eval_simps)
  have p: "map_err get_record_data
      (tl (split_on (u ''!ID '') (read_content html5_sample (universal_newlines ?w))))
    = Inr [PDict [(u ''1'', PStr (u ''a&b'')), (u ''2'', PStr (u ''c<d^e''))]]"
    by (simp add: c6_eval_simps)
  obtain w' where t: "write_content html5_sample IDFile_default ?rs = Inr w'"
      "\<not> list_ex adds_circ (charrefs html5_sample ?c) \<and>
       \<not> list_ex frees_circ (charrefs html5_sample (universal_newlines w')) \<longrightarrow>
         circs (read_content html5_sample (universal_newlines w')) \<le> circs ?c"
      "isdir out_fs (dirname (u ''out/f.id'')) \<and> \<not> locked out_fs (u ''out/f.id'')
         \<and> \<not> isdir out_fs (u ''out/f.id'') \<longrightarrow>
       write_then_read html5_sample IDFile_default out_fs (u ''out/f.id'') ?rs
          = map_err get_record_data
              (tl (split_on (u ''!ID '') (read_content html5_sample (universal_newlines w'))))"
    using unescape_adds_circumflex_only_from_reference
      [OF f, of html5_sample out_fs "u ''out/f.id''"] by blast
  have e: "w' = ?w" using t(1) w by simp
  have c: "circs (read_content html5_sample (universal_newlines ?w)) \<le> circs ?c"
    using t(2) a b unfolding e by blast
  have r: "write_then_read html5_sample IDFile_default out_fs (u ''out/f.id'') ?rs
     = Inr [PDict [(u ''1'', PStr (u ''a&b'')), (u ''2'', PStr (u ''c<d^e''))]]"
    using t(3) d p unfolding e by simp
  show ?thesis using f w a b c r by (intro conjI)
qed

text \<open>
  Claim C6 as stated fails for a value that holds a reference to the circumflex: the
  placeholder substitution has already run when \<open>write\<close> unescapes the stream, so
  \<open>&#94;\<close> becomes a bare circumflex in the file, and the parser reads it as a subfield
  delimiter: the string \<open>a&#94;b\<close> comes back as the subfield set with main value
  \<open>a\<close> and an empty subfield \<open>b\<close>. The same happens to \<open>a&amp;#94;b\<close>, where the
  reference to the circumflex arises in \<open>write\<close> and is resolved by \<open>read\<close>.
\<close>

theorem unescaped_circumflex_read_as_delimiter:
  "write_content html5_sample IDFile_default [PDict [(u ''1'', PStr (u ''a&#94;b''))]]
     = Inr (u ''!ID 000001'' @ 10 # u ''!v001!a^b'' @ [10]) \<and>
   write_then_read html5_sample IDFile_default out_fs (u ''out/f.id'')
       [PDict [(u ''1'', PStr (u ''a&#94;b''))]]
     = Inr [PDict [(u ''1'', PDict [(u ''_'', PStr (u ''a'')), (u ''b'', PStr [])])]] \<and>
   write_content html5_sample IDFile_default [PDict [(u ''1'', PStr (u ''a&amp;#94;b''))]]
     = Inr (u ''!ID 000001'' @ 10 # u ''!v001!a&#94;b'' @ [10]) \<and>
   write_then_read html5_sample IDFile_default out_fs (u ''out/f.id'')
       [PDict [(u ''1'', PStr (u ''a&amp;#94;b''))]]
     = Inr [PDict [(u ''1'', PDict [(u ''_'', PStr (u ''a'')), (u ''b'', PStr [])])]]"
  by (simp add: write_eval_simps)

end
